theory Spec2Isabelle
  imports Complex_Main "HOL-Library.Word" "HOL-Library.AList"
begin

section \<open>The d3-force-graph class, \<^verbatim>\<open>src/index.ts\<close>\<close>

text \<open>
  The theory embeds the parts of \<^verbatim>\<open>class D3ForceGraph\<close> that decide the layout data, the
  frames of the render loop with their interpolation of positions, the viewport culling and the
  highlight bookkeeping.

  Conventions.
  \<^item> A thrown exception (\<^verbatim>\<open>TypeError\<close>: a property read on \<^verbatim>\<open>undefined\<close>) is the
    value \<open>Inl TypeError\<close>; the state a throwing method leaves behind is not modelled.
  \<^item> A JavaScript number that holds a position is a \<open>jsnum\<close>: a finite value, an infinity or
    \<^verbatim>\<open>NaN\<close>. In the state of a graph object finite arithmetic is exact (\<open>real\<close>). The
    rounding of the one formula that computes positions, line 550, is modelled beside it
    (\<open>blend64\<close>): every operation rounded to binary64, the store into a \<^verbatim>\<open>Float32Array\<close>
    rounded to 32 bits. Clock values (\<^verbatim>\<open>Date.now()\<close>) are integers.
  \<^item> What the rendering engine contributes to a frame is a parameter of the frame: the object
    the ray from the pointer hits first, and what \<^verbatim>\<open>controls.update()\<close> does to the camera.
  \<^item> An object used as a dictionary (\<^verbatim>\<open>{}\<close>) is a map from keys to values together with the
    properties every such object inherits from \<^verbatim>\<open>Object.prototype\<close>.
\<close>

subsection \<open>Errors and numbers\<close>

datatype error = TypeError

datatype jsnum = Num real | PosInf | NegInf | NaN

fun jsNeg :: "jsnum \<Rightarrow> jsnum" where
  "jsNeg (Num x) = Num (- x)"
| "jsNeg PosInf = NegInf"
| "jsNeg NegInf = PosInf"
| "jsNeg NaN = NaN"

fun jsAdd :: "jsnum \<Rightarrow> jsnum \<Rightarrow> jsnum" where
  "jsAdd NaN b = NaN"
| "jsAdd a NaN = NaN"
| "jsAdd (Num x) (Num y) = Num (x + y)"
| "jsAdd PosInf NegInf = NaN"
| "jsAdd NegInf PosInf = NaN"
| "jsAdd PosInf b = PosInf"
| "jsAdd NegInf b = NegInf"
| "jsAdd (Num x) b = b"

text \<open>\<^verbatim>\<open>a - b\<close> is \<^verbatim>\<open>a + (-b)\<close>, also on infinities and \<^verbatim>\<open>NaN\<close>.\<close>

definition jsSub :: "jsnum \<Rightarrow> jsnum \<Rightarrow> jsnum" where
  "jsSub a b = jsAdd a (jsNeg b)"

text \<open>Division and multiplication by a clock difference, an integer; a zero divisor is \<open>+0\<close>.\<close>

fun jsDiv :: "jsnum \<Rightarrow> int \<Rightarrow> jsnum" where
  "jsDiv NaN k = NaN"
| "jsDiv (Num x) k =
     (if k = 0 then (if x = 0 then NaN else if 0 < x then PosInf else NegInf)
      else Num (x / real_of_int k))"
| "jsDiv PosInf k = (if 0 \<le> k then PosInf else NegInf)"
| "jsDiv NegInf k = (if 0 \<le> k then NegInf else PosInf)"

fun jsMul :: "jsnum \<Rightarrow> int \<Rightarrow> jsnum" where
  "jsMul NaN k = NaN"
| "jsMul (Num x) k = Num (x * real_of_int k)"
| "jsMul PosInf k = (if k = 0 then NaN else if 0 < k then PosInf else NegInf)"
| "jsMul NegInf k = (if k = 0 then NaN else if 0 < k then NegInf else PosInf)"

text \<open>
  Reading a typed array: an index past the end yields \<^verbatim>\<open>undefined\<close> (\<open>None\<close>), which
  arithmetic and comparisons convert to \<^verbatim>\<open>NaN\<close>.
\<close>

definition rd :: "jsnum list \<Rightarrow> nat \<Rightarrow> jsnum option" where
  "rd xs i = (if i < length xs then Some (xs ! i) else None)"

fun toNumber :: "jsnum option \<Rightarrow> jsnum" where
  "toNumber None = NaN"
| "toNumber (Some v) = v"

text \<open>\<^verbatim>\<open>a !== b\<close> on two array reads.\<close>

fun strictNe :: "jsnum option \<Rightarrow> jsnum option \<Rightarrow> bool" where
  "strictNe (Some NaN) b = True"
| "strictNe a (Some NaN) = True"
| "strictNe a b = (a \<noteq> b)"



subsection \<open>Rounded arithmetic\<close>

text \<open>
  A finite floating-point number with \<open>p\<close> significant bits and least exponent \<open>emin\<close> is an
  integer of fewer than \<open>p\<close> bits times a power of two not below \<open>2 powi emin\<close>. Rounding
  takes a real to the nearest multiple of its unit in the last place, a tie to the even
  multiple. Below the normal range the unit stays at \<open>2 powi emin\<close> (gradual underflow);
  overflow to an infinity is not modelled.
\<close>

definition roundEven :: "real \<Rightarrow> int" where
  "roundEven y =
     (let f = \<lfloor>y\<rfloor>; d = y - real_of_int f
      in if d < 1 / 2 then f else if 1 / 2 < d then f + 1 else if even f then f else f + 1)"

definition ulp :: "nat \<Rightarrow> int \<Rightarrow> real \<Rightarrow> real" where
  "ulp p emin x = 2 powi max (\<lfloor>log 2 \<bar>x\<bar>\<rfloor> - int p + 1) emin"

definition roundTo :: "nat \<Rightarrow> int \<Rightarrow> real \<Rightarrow> real" where
  "roundTo p emin x =
     (if x = 0 then 0 else real_of_int (roundEven (x / ulp p emin x)) * ulp p emin x)"

text \<open>
  The rounding of every arithmetic operation on JavaScript numbers (binary64), and that of a
  store into a \<^verbatim>\<open>Float32Array\<close> (\<^verbatim>\<open>Math.fround\<close>).
\<close>

definition binary64 :: "real \<Rightarrow> real" where
  "binary64 = roundTo 53 (- 1074)"

definition fround :: "real \<Rightarrow> real" where
  "fround = roundTo 24 (- 149)"

text \<open>The finite values an element of a \<^verbatim>\<open>Float32Array\<close> can hold.\<close>

definition isFloat32 :: "real \<Rightarrow> bool" where
  "isFloat32 x \<longleftrightarrow>
     (\<exists>m e. \<bar>m\<bar> < 2 ^ 24 \<and> - 149 \<le> e \<and> e \<le> 104 \<and> x = real_of_int m * 2 powi e)"

subsection \<open>Objects used as dictionaries\<close>

text \<open>
  The property names every object literal inherits from \<^verbatim>\<open>Object.prototype\<close>. Each of
  them reads as a function, or as an object for \<^verbatim>\<open>__proto__\<close>: a truthy value that has no
  \<^verbatim>\<open>index\<close> property.
\<close>

definition objectPrototypeKeys :: "string list" where
  "objectPrototypeKeys =
     [''constructor'', ''__defineGetter__'', ''__defineSetter__'', ''hasOwnProperty'',
      ''__lookupGetter__'', ''__lookupSetter__'', ''isPrototypeOf'', ''propertyIsEnumerable'',
      ''toString'', ''valueOf'', ''__proto__'', ''toLocaleString'']"

datatype 'a property = Own 'a | Inherited | Undefined

definition getProp :: "(string \<rightharpoonup> 'a) \<Rightarrow> string \<Rightarrow> 'a property" where
  "getProp m k =
     (case m k of
        Some v \<Rightarrow> Own v
      | None \<Rightarrow> if k \<in> set objectPrototypeKeys then Inherited else Undefined)"

text \<open>Truthiness of a property read whose own values are objects.\<close>

fun truthy :: "'a property \<Rightarrow> bool" where
  "truthy Undefined = False"
| "truthy p = True"

text \<open>
  \<^verbatim>\<open>Object.keys\<close> lists the keys that are array indices (canonical decimal numerals up to
  \<open>2^32 - 2\<close>) first, in ascending numeric order, and then the other keys in the order of their
  creation.
\<close>

definition isDigit :: "char \<Rightarrow> bool" where
  "isDigit c = (c \<in> set ''0123456789'')"

definition decVal :: "string \<Rightarrow> int" where
  "decVal s = foldl (\<lambda>n c. 10 * n + (of_char c - 48)) 0 s"

definition isArrayIndex :: "string \<Rightarrow> bool" where
  "isArrayIndex s =
     (s \<noteq> [] \<and> list_all isDigit s \<and> (s = ''0'' \<or> hd s \<noteq> CHR ''0'') \<and> decVal s \<le> 4294967294)"

definition objectKeys :: "string list \<Rightarrow> string list" where
  \<comment> \<open>from the own keys in the order of their creation\<close>
  "objectKeys ks =
     sort_key decVal (filter isArrayIndex ks) @ filter (\<lambda>k. \<not> isArrayIndex k) ks"

subsection \<open>The data model\<close>

type_synonym RGBA = "real \<times> real \<times> real \<times> real"

record rawNode =
  node_id :: string
  node_name :: "string option"
  node_scale :: "real option"
  node_image :: "string option"

record rawLink =
  link_source :: string
  link_target :: string
  link_color :: "RGBA option"

record GraphData =
  data_nodes :: "rawNode list"
  data_links :: "rawLink list"

record D3Link =
  source :: string
  target :: string

record nodeInfo =
  info_index :: nat
  info_scale :: "real option"
  info_image :: "string option"
  info_name :: "string option"

record statRow =
  row_source :: string
  row_count :: nat

text \<open>
  \<open>nodes\<close> holds the \<^verbatim>\<open>id\<close> of each \<^verbatim>\<open>{id}\<close> entry. \<open>linkBuffer\<close> is the
  \<^verbatim>\<open>Int32Array\<close>. \<open>statTable\<close> is \<open>None\<close> when a count is not a number (see
  \<open>linkCountStep\<close>): the comparator then yields \<^verbatim>\<open>NaN\<close> and the order that
  \<^verbatim>\<open>Array.prototype.sort\<close> produces is implementation-defined.
\<close>

record ProcessedData =
  nodes :: "string list"
  links :: "D3Link list"
  nodeInfoMap :: "string \<rightharpoonup> nodeInfo"
  linkInfoMap :: "string \<rightharpoonup> RGBA option"
  linkBuffer :: "32 word list"
  statTable :: "statRow list option"

subsection \<open>\<^verbatim>\<open>preProcessData\<close>\<close>

text \<open>The local variables of \<^verbatim>\<open>preProcessData\<close> together with the fields of \<^verbatim>\<open>result\<close>.\<close>

record prep =
  p_nodes :: "string list"
  p_links :: "D3Link list"
  p_nodeInfoMap :: "string \<rightharpoonup> nodeInfo"
  p_linkInfoMap :: "string \<rightharpoonup> RGBA option"
  p_nodeCount :: nat
  p_linkCount :: nat
  p_linkCountMap :: "(string \<times> nat option) list"
  p_linkBuffer :: "nat option list"

definition prep0 :: prep where
  "prep0 = \<lparr>p_nodes = [], p_links = [], p_nodeInfoMap = Map.empty, p_linkInfoMap = Map.empty,
            p_nodeCount = 0, p_linkCount = 0, p_linkCountMap = [], p_linkBuffer = []\<rparr>"

text \<open>The body of \<^verbatim>\<open>this.data.nodes.forEach\<close>.\<close>

definition nodeStep :: "prep \<Rightarrow> rawNode \<Rightarrow> prep" where
  "nodeStep p e =
     (if \<not> truthy (getProp (p_nodeInfoMap p) (node_id e)) then
        p\<lparr>p_nodes := p_nodes p @ [node_id e],
          p_nodeInfoMap := (p_nodeInfoMap p)(node_id e \<mapsto>
             \<lparr>info_index = p_nodeCount p, info_scale = node_scale e,
              info_image = node_image e, info_name = node_name e\<rparr>),
          p_nodeCount := p_nodeCount p + 1\<rparr>
      else p)"

text \<open>\<^verbatim>\<open>`${e.source}-${e.target}`\<close>\<close>

definition linkInfoKey :: "string \<Rightarrow> string \<Rightarrow> string" where
  "linkInfoKey s t = s @ ''-'' @ t"

text \<open>
  \<^verbatim>\<open>result.nodeInfoMap[k].index\<close>: the index of an own entry; \<^verbatim>\<open>undefined\<close> (\<open>None\<close>) when
  \<open>k\<close> names an inherited property; a \<^verbatim>\<open>TypeError\<close> when the object has no such property.
\<close>

definition nodeIndex :: "(string \<rightharpoonup> nodeInfo) \<Rightarrow> string \<Rightarrow> error + nat option" where
  "nodeIndex m k =
     (case getProp m k of
        Own i \<Rightarrow> Inr (Some (info_index i))
      | Inherited \<Rightarrow> Inr None
      | Undefined \<Rightarrow> Inl TypeError)"

text \<open>
  \<^verbatim>\<open>linkCountMap[s] = (linkCountMap[s] || 0) + 1\<close>. An own numeric count is incremented and
  a missing one starts at 1. Where \<open>s\<close> names an inherited property, the value read is a function
  or an object, \<^verbatim>\<open>+ 1\<close> concatenates strings and the count stored is a string (\<open>None\<close>);
  for \<^verbatim>\<open>__proto__\<close> the store goes to the inherited setter, which ignores a string.
\<close>

definition linkCountStep :: "(string \<times> nat option) list \<Rightarrow> string \<Rightarrow> (string \<times> nat option) list" where
  "linkCountStep m s =
     (case map_of m s of
        Some (Some n) \<Rightarrow> AList.update s (Some (n + 1)) m
      | Some None \<Rightarrow> m
      | None \<Rightarrow>
          if s = ''__proto__'' then m
          else if s \<in> set objectPrototypeKeys then m @ [(s, None)]
          else m @ [(s, Some 1)])"

text \<open>Lines 294 to 303, with the two indices of line 298 already read.\<close>

definition pushLink :: "prep \<Rightarrow> rawLink \<Rightarrow> nat option \<Rightarrow> nat option \<Rightarrow> prep" where
  "pushLink p e si ti =
     p\<lparr>p_links := p_links p @ [\<lparr>source = link_source e, target = link_target e\<rparr>],
       p_linkBuffer := p_linkBuffer p @ [si, ti],
       p_linkInfoMap := (p_linkInfoMap p)(linkInfoKey (link_source e) (link_target e) \<mapsto> link_color e),
       p_linkCountMap := linkCountStep (p_linkCountMap p) (link_source e),
       p_linkCount := p_linkCount p + 1\<rparr>"

text \<open>The body of \<^verbatim>\<open>this.data.links.forEach\<close>.\<close>

definition linkStep :: "prep \<Rightarrow> rawLink \<Rightarrow> error + prep" where
  "linkStep p e =
     (if \<not> truthy (getProp (p_linkInfoMap p) (linkInfoKey (link_source e) (link_target e))) then
        (case nodeIndex (p_nodeInfoMap p) (link_source e) of
           Inl err \<Rightarrow> Inl err
         | Inr si \<Rightarrow>
            (case nodeIndex (p_nodeInfoMap p) (link_target e) of
               Inl err \<Rightarrow> Inl err
             | Inr ti \<Rightarrow> Inr (pushLink p e si ti)))
      else Inr p)"

fun linkLoop :: "prep \<Rightarrow> rawLink list \<Rightarrow> error + prep" where
  "linkLoop p [] = Inr p"
| "linkLoop p (e # es) = (case linkStep p e of Inl err \<Rightarrow> Inl err | Inr p' \<Rightarrow> linkLoop p' es)"

text \<open>\<^verbatim>\<open>new Int32Array(linkBuffer)\<close>: \<^verbatim>\<open>undefined\<close> becomes 0, a number is taken modulo \<open>2^32\<close>.\<close>

fun toInt32 :: "nat option \<Rightarrow> 32 word" where
  "toInt32 None = 0"
| "toInt32 (Some n) = of_nat n"

text \<open>
  The ranking: \<^verbatim>\<open>Object.keys(linkCountMap).map(...).sort((a, b) => b.count - a.count)\<close>, cut to
  20 rows. The sort is stable (ECMAScript 2019).
\<close>

definition countOf :: "(string \<times> nat option) list \<Rightarrow> string \<Rightarrow> nat" where
  "countOf m k = (case map_of m k of Some (Some n) \<Rightarrow> n | _ \<Rightarrow> 0)"

definition mkStatTable :: "(string \<times> nat option) list \<Rightarrow> statRow list option" where
  "mkStatTable m =
     (if list_all (\<lambda>kv. snd kv \<noteq> None) m then
        (let rows = map (\<lambda>k. \<lparr>row_source = k, row_count = countOf m k\<rparr>) (objectKeys (map fst m));
             sorted = sort_key (\<lambda>r. - int (row_count r)) rows
         in Some (if length sorted > 20 then take 20 sorted else sorted))
      else None)"

definition preProcessData :: "GraphData \<Rightarrow> error + ProcessedData" where
  "preProcessData d =
     (case linkLoop (foldl nodeStep prep0 (data_nodes d)) (data_links d) of
        Inl err \<Rightarrow> Inl err
      | Inr p \<Rightarrow>
          Inr \<lparr>nodes = p_nodes p, links = p_links p, nodeInfoMap = p_nodeInfoMap p,
               linkInfoMap = p_linkInfoMap p, linkBuffer = map toInt32 (p_linkBuffer p),
               statTable = mkStatTable (p_linkCountMap p)\<rparr>)"

subsection \<open>The state of a graph object\<close>

text \<open>
  The fields of one graph object that the modelled methods read or write; \<^verbatim>\<open>perfInfo\<close> is
  flattened into them. A \<^verbatim>\<open>Float32Array\<close> is an address into \<open>heap\<close>: \<^verbatim>\<open>currentPositionStatus\<close>,
  \<^verbatim>\<open>targetPositionStatus\<close> and \<^verbatim>\<open>cachePositionStatus\<close> are references (\<open>None\<close> while
  \<^verbatim>\<open>undefined\<close>) and two of them may name the same array.
\<close>

type_synonym ref = nat

record camera =
  cam_x :: real
  cam_y :: real
  cam_z :: real
  cam_aspect :: real

text \<open>
  A child of the scene: its \<^verbatim>\<open>name\<close> and what its geometry was built from (the node ids of a
  point cloud, the links of a line or arrow set, the node a label belongs to).
\<close>

datatype content = PointsAt "string list" | SegmentsOf "D3Link list" | ArrowsOf "D3Link list"
  | LabelOf string | Other

record object3D =
  obj_name :: string
  obj_content :: content

record graph =
  processedData :: ProcessedData
  nodeCounts :: nat
  linkCounts :: nat
  prevTickTime :: int
  intervalTime :: int
  targetTick :: nat
  layouting :: bool
  targetPositionStatus :: "ref option"
  currentPositionStatus :: "ref option"
  cachePositionStatus :: "ref option"
  heap :: "ref \<Rightarrow> jsnum list"
  nextRef :: ref
  nodesPositions :: "(jsnum \<times> jsnum) list"
  camera :: camera
  scene :: "object3D list"
  highlighted :: "string option"
  mouseOnTable :: bool
  throttleTimer :: bool
  rafId :: bool
  drawnWith :: camera

text \<open>
  \<open>throttleTimer\<close> and \<open>rafId\<close> tell whether the handle is set: a timer is pending, a frame
  is requested. \<open>drawnWith\<close> is what the model keeps of the picture on the canvas: the
  camera that the latest \<^verbatim>\<open>renderer.render(scene, camera)\<close> was given.
\<close>

text \<open>\<^verbatim>\<open>new Float32Array(data)\<close>\<close>

definition alloc :: "jsnum list \<Rightarrow> graph \<Rightarrow> ref \<times> graph" where
  "alloc xs g = (nextRef g, g\<lparr>heap := (heap g)(nextRef g := xs), nextRef := nextRef g + 1\<rparr>)"

text \<open>
  The object after the constructor (\<^verbatim>\<open>init\<close>): the processed data, the counts taken from it,
  the perf record at its defaults, no position buffer yet, and the two base meshes in the scene
  with every node parked at -9999. The camera of \<^verbatim>\<open>prepareScene\<close> is a parameter: its height
  \<^verbatim>\<open>getPositionZ(n)\<close> is a floating-point power. \<^verbatim>\<open>prepareScene\<close> draws the empty scene
  once with it.
\<close>

definition init :: "GraphData \<Rightarrow> camera \<Rightarrow> error + graph" where
  "init d cam =
     (case preProcessData d of
        Inl err \<Rightarrow> Inl err
      | Inr pd \<Rightarrow>
          Inr \<lparr>processedData = pd, nodeCounts = length (nodes pd), linkCounts = length (links pd),
               prevTickTime = 0, intervalTime = 0, targetTick = 0, layouting = False,
               targetPositionStatus = None, currentPositionStatus = None,
               cachePositionStatus = None, heap = (\<lambda>r. []), nextRef = 0,
               nodesPositions = replicate (length (nodes pd)) (Num (- 9999), Num (- 9999)),
               camera = cam,
               scene = [\<lparr>obj_name = ''basePoints'', obj_content = Other\<rparr>,
                        \<lparr>obj_name = ''baseLines'', obj_content = Other\<rparr>],
               highlighted = None, mouseOnTable = False, throttleTimer = False, rafId = False,
               drawnWith = cam\<rparr>)"

subsection \<open>The worker's messages\<close>

text \<open>
  The \<^verbatim>\<open>tick\<close> case of \<^verbatim>\<open>worker.onmessage\<close>, at clock value \<open>now\<close>, for a message with
  \<^verbatim>\<open>currentTick\<close> and position data \<open>d\<close>. The progress text and the elapsed time shown in
  the HUD are left out.
\<close>

text \<open>\<^verbatim>\<open>startRender\<close> requests a frame unless one is requested already.\<close>

definition startRender :: "graph \<Rightarrow> graph" where
  "startRender g = (if \<not> rafId g then g\<lparr>rafId := True\<rparr> else g)"

definition cacheCurrent :: "graph \<Rightarrow> graph" where
  "cacheCurrent g =
     (case currentPositionStatus g of
        None \<Rightarrow> g
      | Some cur \<Rightarrow>
          (let len = length (heap g cur);
               (c, g1) = (case cachePositionStatus g of
                            None \<Rightarrow> (let (r, g') = alloc (replicate len (Num 0)) g
                                     in (r, g'\<lparr>cachePositionStatus := Some r\<rparr>))
                          | Some r \<Rightarrow> (r, g))
           in g1\<lparr>heap := foldl (\<lambda>h i. h(c := (h c)[i := toNumber (rd (h cur) i)])) (heap g1) [0..<len]\<rparr>))"

definition onTick :: "int \<Rightarrow> nat \<Rightarrow> jsnum list \<Rightarrow> graph \<Rightarrow> graph" where
  "onTick now currentTick d g =
     (let g1 = g\<lparr>layouting := True,
                 intervalTime := now - (if prevTickTime g \<noteq> 0 then prevTickTime g else now),
                 prevTickTime := now\<rparr>
      in if currentTick = 1 then
           (let (r, g2) = alloc d g1 in g2\<lparr>targetPositionStatus := Some r\<rparr>)
         else
           (let g2 = (if currentTick = 2
                      then startRender (g1\<lparr>currentPositionStatus := targetPositionStatus g1\<rparr>)
                      else g1);
                (r, g3) = alloc d g2;
                g4 = cacheCurrent (g3\<lparr>targetPositionStatus := Some r\<rparr>)
            in g4\<lparr>targetTick := currentTick\<rparr>))"

text \<open>The \<^verbatim>\<open>end\<close> case stores the final layout; its timers clear \<^verbatim>\<open>layouting\<close> later.\<close>

definition onEnd :: "jsnum list \<Rightarrow> graph \<Rightarrow> graph" where
  "onEnd d g = (let (r, g1) = alloc d g in g1\<lparr>targetPositionStatus := Some r\<rparr>)"

subsection \<open>The head of \<^verbatim>\<open>render\<close>: camera clamp and interpolation\<close>

text \<open>Lines 537 to 542: \<^verbatim>\<open>camera.position.set(x, y, 75)\<close> and \<^verbatim>\<open>set(x, y, 16000)\<close>.\<close>

definition clampCamera :: "camera \<Rightarrow> camera" where
  "clampCamera c =
     (let c1 = (if cam_z c < 75 then c\<lparr>cam_z := 75\<rparr> else c)
      in if cam_z c1 > 16000 then c1\<lparr>cam_z := 16000\<rparr> else c1)"

text \<open>
  \<^verbatim>\<open>updatePosition(nodesPosition)\<close> copies the coordinates of every node into
  \<^verbatim>\<open>nodes.positions\<close> (\<open>nodesPositions\<close>, the x and y of each node) and those of the link
  endpoints into \<^verbatim>\<open>lines.positions\<close>. The line buffer is not modelled, only the failure of
  its loop: a link index past the end of \<^verbatim>\<open>links\<close>, or an endpoint that is no property of
  \<^verbatim>\<open>nodeInfoMap\<close>. With \<^verbatim>\<open>nodesPosition\<close> undefined, every read of a coordinate throws.
\<close>

definition linkResolvable :: "ProcessedData \<Rightarrow> D3Link \<Rightarrow> bool" where
  "linkResolvable pd l =
     (truthy (getProp (nodeInfoMap pd) (source l)) \<and> truthy (getProp (nodeInfoMap pd) (target l)))"

definition updatePosition :: "ref option \<Rightarrow> graph \<Rightarrow> error + graph" where
  "updatePosition np g =
     (case np of
        None \<Rightarrow> if nodeCounts g = 0 \<and> linkCounts g = 0 then Inr g else Inl TypeError
      | Some r \<Rightarrow>
          if linkCounts g \<le> length (links (processedData g)) \<and>
             list_all (linkResolvable (processedData g)) (take (linkCounts g) (links (processedData g)))
          then Inr (g\<lparr>nodesPositions :=
                        map (\<lambda>i. (toNumber (rd (heap g r) (i * 2)), toNumber (rd (heap g r) (i * 2 + 1))))
                            [0..<nodeCounts g]\<rparr>)
          else Inl TypeError)"

text \<open>Line 550, for one coordinate: target \<open>t\<close>, cached \<open>c\<close>.\<close>

definition blend :: "jsnum \<Rightarrow> jsnum \<Rightarrow> int \<Rightarrow> int \<Rightarrow> jsnum" where
  "blend t c interval stepTime = jsAdd (jsMul (jsDiv (jsSub t c) interval) stepTime) c"

text \<open>
  The same line as the machine evaluates it on finite coordinates and a nonzero interval: the
  subtraction, the division, the multiplication and the addition each round to binary64, in that
  order, and the store into \<^verbatim>\<open>currentPositionStatus\<close> rounds to 32 bits. The two clock
  differences are integers far below \<open>2 ^ 53\<close> and so are binary64 numbers themselves.
\<close>

definition blend64 :: "real \<Rightarrow> real \<Rightarrow> int \<Rightarrow> int \<Rightarrow> real" where
  "blend64 t c interval stepTime =
     fround (binary64 (binary64 (binary64 (binary64 (t - c) / real_of_int interval)
                                   * real_of_int stepTime) + c))"

text \<open>The loop of lines 549 to 551 on the heap: entry \<open>i\<close> of \<open>cur\<close> is written in turn.\<close>

definition blendLoop :: "ref \<Rightarrow> ref \<Rightarrow> ref \<Rightarrow> int \<Rightarrow> int \<Rightarrow> (ref \<Rightarrow> jsnum list) \<Rightarrow> (ref \<Rightarrow> jsnum list)" where
  "blendLoop cur tgt cache interval stepTime h =
     foldl (\<lambda>h i. h(cur := (h cur)[i := blend (toNumber (rd (h tgt) i)) (toNumber (rd (h cache) i))
                                             interval stepTime]))
       h [0..<length (h cur)]"

text \<open>Lines 548 to 553.\<close>

definition blendStep :: "int \<Rightarrow> graph \<Rightarrow> error + graph" where
  "blendStep stepTime g =
     (if stepTime \<le> intervalTime g then
        (case currentPositionStatus g of
           None \<Rightarrow> Inl TypeError
         | Some cur \<Rightarrow>
             if length (heap g cur) = 0 then updatePosition (Some cur) g
             else
               (case (targetPositionStatus g, cachePositionStatus g) of
                  (Some tgt, Some cache) \<Rightarrow>
                    updatePosition (Some cur)
                      (g\<lparr>heap := blendLoop cur tgt cache (intervalTime g) stepTime (heap g)\<rparr>)
                | _ \<Rightarrow> Inl TypeError))
      else Inr g)"

text \<open>Lines 554 to 557.\<close>

definition snapStep :: "graph \<Rightarrow> error + graph" where
  "snapStep g =
     (if \<not> layouting g then
        (case (currentPositionStatus g, targetPositionStatus g) of
           (Some cur, Some tgt) \<Rightarrow>
             if strictNe (rd (heap g cur) 0) (rd (heap g tgt) 0)
             then updatePosition (Some tgt) (g\<lparr>currentPositionStatus := Some tgt\<rparr>)
             else Inr g
         | _ \<Rightarrow> Inl TypeError)
      else Inr g)"

text \<open>Lines 544 to 561 at clock value \<open>now\<close>: the interpolation step of a frame.\<close>

definition interpolate :: "int \<Rightarrow> graph \<Rightarrow> error + graph" where
  "interpolate now g =
     (if nodeCounts g > 1000 then
        (case blendStep (now - prevTickTime g) g of
           Inl err \<Rightarrow> Inl err
         | Inr g1 \<Rightarrow> snapStep g1)
      else updatePosition (targetPositionStatus g) (g\<lparr>currentPositionStatus := targetPositionStatus g\<rparr>))"

subsection \<open>Viewport culling\<close>







subsection \<open>Highlighting\<close>

text \<open>
  \<^verbatim>\<open>scene.getObjectByName\<close> returns the first child with the name, \<^verbatim>\<open>scene.remove\<close> takes
  the object found out of the children and ignores \<^verbatim>\<open>undefined\<close>, \<^verbatim>\<open>scene.add\<close> appends.
  The children of the scene have no children of their own.
\<close>

definition getObjectByName :: "object3D list \<Rightarrow> string \<Rightarrow> object3D option" where
  "getObjectByName xs n = find (\<lambda>ob. obj_name ob = n) xs"

fun sceneRemove :: "object3D option \<Rightarrow> object3D list \<Rightarrow> object3D list" where
  "sceneRemove None xs = xs"
| "sceneRemove (Some ob) xs = remove1 ob xs"

text \<open>
  \<^verbatim>\<open>addHighLight\<close>. Every throw comes before the first \<^verbatim>\<open>scene.add\<close>: \<^verbatim>\<open>sourceNode\<close>
  undefined, the position buffer undefined, or a node of the set that is no property of
  \<^verbatim>\<open>nodeInfoMap\<close>.
\<close>

definition addHighLight :: "string \<Rightarrow> graph \<Rightarrow> error + graph" where
  "addHighLight sourceId g =
     (let pd = processedData g;
          ls = filter (\<lambda>e. source e = sourceId \<or> target e = sourceId) (links pd)
      in case find (\<lambda>e. e = sourceId) (nodes pd) of
           None \<Rightarrow> Inl TypeError
         | Some sourceNode \<Rightarrow>
             (let targetNodes = map (\<lambda>e. if target e = sourceNode then source e else target e) ls
                                @ [sourceNode]
              in if currentPositionStatus g = None \<or>
                    \<not> list_all (\<lambda>e. truthy (getProp (nodeInfoMap pd) e)) targetNodes
                 then Inl TypeError
                 else Inr (g\<lparr>scene := scene g @
                             [\<lparr>obj_name = ''hlNodes'', obj_content = PointsAt targetNodes\<rparr>,
                              \<lparr>obj_name = ''hlLine'', obj_content = SegmentsOf ls\<rparr>,
                              \<lparr>obj_name = ''hlArrow'', obj_content = ArrowsOf ls\<rparr>,
                              \<lparr>obj_name = ''hlText'', obj_content = LabelOf sourceId\<rparr>]\<rparr>)))"

definition highlight :: "string \<Rightarrow> graph \<Rightarrow> error + graph" where
  "highlight ident g =
     (if highlighted g \<noteq> Some ident then
        (case addHighLight ident g of
           Inl err \<Rightarrow> Inl err
         | Inr g' \<Rightarrow> Inr (g'\<lparr>highlighted := Some ident\<rparr>))
      else Inr g)"

definition unhighlight :: "graph \<Rightarrow> graph" where
  "unhighlight g =
     (let node = getObjectByName (scene g) ''hlNodes'';
          line = getObjectByName (scene g) ''hlLines'';
          textObj = getObjectByName (scene g) ''hlText'';
          arrow = getObjectByName (scene g) ''hlArrows''
      in g\<lparr>scene := sceneRemove arrow (sceneRemove textObj (sceneRemove line (sceneRemove node (scene g)))),
           highlighted := None\<rparr>)"

subsection \<open>\<^verbatim>\<open>render\<close>: one frame\<close>

text \<open>
  \<^verbatim>\<open>updateHighLight\<close> casts a ray from the pointer and keeps the intersections with point
  clouds whose name does not start with \<^verbatim>\<open>hl\<close>: the node cloud \<^verbatim>\<open>basePoints\<close>, an avatar
  \<^verbatim>\<open>ava-...\<close> or the arrow cloud. The ray casting is the engine's; its outcome, the first of
  these intersections, is a parameter: nothing, point \<open>i\<close> of the node cloud, the avatar of a
  node id, or an arrow.
\<close>

datatype rayHit = NoHit | BasePoint nat | Avatar string | Arrow

text \<open>
  Lines 651 to 666. \<^verbatim>\<open>nodes[target.index].id\<close> throws when there is no such node, and
  \<^verbatim>\<open>if(id)\<close> takes the empty string as no id.
\<close>

definition updateHighLight :: "rayHit \<Rightarrow> graph \<Rightarrow> error + graph" where
  "updateHighLight hit g =
     (case hit of
        NoHit \<Rightarrow> Inr (if \<not> mouseOnTable g then unhighlight g else g)
      | BasePoint i \<Rightarrow>
          if i < length (nodes (processedData g))
          then (let ident = nodes (processedData g) ! i
                in if ident \<noteq> [] then highlight ident g else Inr g)
          else Inl TypeError
      | Avatar ident \<Rightarrow> if ident \<noteq> [] then highlight ident g else Inr g
      | Arrow \<Rightarrow> Inr g)"

text \<open>
  \<^verbatim>\<open>loadImage\<close> sets the throttle timer unless one is pending. The timer's function runs a
  second later, outside the frame, and is not modelled.
\<close>

definition loadImage :: "graph \<Rightarrow> graph" where
  "loadImage g = (if \<not> throttleTimer g then g\<lparr>throttleTimer := True\<rparr> else g)"

text \<open>
  One frame at clock value \<open>now\<close>, lines 534 to 570, statement by statement: the request handle
  is cleared, the camera is clamped, the positions are interpolated, the hover highlight is
  brought up to date, the avatar timer is set when the layout has ended and the camera is below
  300, the scene is drawn with the camera as it then is, the camera controls update the camera,
  and the next frame is requested. \<open>hit\<close> is the outcome of the ray casting in this frame and
  \<open>controlsUpdate\<close> is what \<^verbatim>\<open>this.controls.update()\<close> does to the camera in this frame
  (the controls are the engine's \<^verbatim>\<open>MapControls\<close>, installed by \<^verbatim>\<open>init\<close>). A statement that
  throws ends the frame. The frame is a call of the method on the graph object.
\<close>

definition render :: "rayHit \<Rightarrow> (camera \<Rightarrow> camera) \<Rightarrow> int \<Rightarrow> graph \<Rightarrow> error + graph" where
  "render hit controlsUpdate now g0 =
     (let g = g0\<lparr>rafId := False, camera := clampCamera (camera g0)\<rparr> in
      case interpolate now g of
        Inl err \<Rightarrow> Inl err
      | Inr g1 \<Rightarrow>
          (case updateHighLight hit g1 of
             Inl err \<Rightarrow> Inl err
           | Inr g2 \<Rightarrow>
               (let g3 = (if \<not> layouting g2 \<and> cam_z (camera g2) < 300 then loadImage g2 else g2);
                    g4 = g3\<lparr>drawnWith := camera g3\<rparr>;
                    g5 = g4\<lparr>camera := controlsUpdate (camera g4)\<rparr>
                in Inr (startRender g5))))"

subsection \<open>Notions used in the statements\<close>

text \<open>
  First-wins deduplication as the specification words it: an element is kept when no earlier
  element has the same key.
\<close>

fun firstByKey :: "('a \<Rightarrow> 'k) \<Rightarrow> 'a list \<Rightarrow> 'a list" where
  "firstByKey f [] = []"
| "firstByKey f (x # xs) = x # firstByKey f (filter (\<lambda>y. f y \<noteq> f x) xs)"

definition rawKey :: "rawLink \<Rightarrow> string" where
  "rawKey e = linkInfoKey (link_source e) (link_target e)"

definition toD3 :: "rawLink \<Rightarrow> D3Link" where
  "toD3 e = \<lparr>source = link_source e, target = link_target e\<rparr>"

text \<open>The number of retained links that leave \<open>k\<close>.\<close>

definition outDegree :: "D3Link list \<Rightarrow> string \<Rightarrow> nat" where
  "outDegree ls k = length (filter (\<lambda>l. source l = k) ls)"

text \<open>
  The invariant of the node loop: the ids indexed so far are distinct, none of them is a
  property name of \<^verbatim>\<open>Object.prototype\<close>, they are the keys of \<^verbatim>\<open>nodeInfoMap\<close>, and the
  entry of the \<open>i\<close>-th id holds the index \<open>i\<close>.
\<close>

definition nodeInv :: "prep \<Rightarrow> bool" where
  "nodeInv p \<longleftrightarrow>
     distinct (p_nodes p) \<and> p_nodeCount p = length (p_nodes p) \<and>
     dom (p_nodeInfoMap p) = set (p_nodes p) \<and>
     set (p_nodes p) \<inter> set objectPrototypeKeys = {} \<and>
     (\<forall>i < length (p_nodes p). map_option info_index (p_nodeInfoMap p (p_nodes p ! i)) = Some i)"

text \<open>What line 298 pushes for an endpoint that is a property of \<^verbatim>\<open>nodeInfoMap\<close>.\<close>

definition resolve :: "(string \<rightharpoonup> nodeInfo) \<Rightarrow> string \<Rightarrow> nat option" where
  "resolve m k = (case getProp m k of Own i \<Rightarrow> Some (info_index i) | _ \<Rightarrow> None)"

text \<open>
  Both endpoints are properties of \<^verbatim>\<open>nodeInfoMap\<close>, own or inherited: line 298 does not
  throw.
\<close>

definition endpointsKnown :: "(string \<rightharpoonup> nodeInfo) \<Rightarrow> rawLink \<Rightarrow> bool" where
  "endpointsKnown m e = (truthy (getProp m (link_source e)) \<and> truthy (getProp m (link_target e)))"

text \<open>\<open>pushLink\<close> with the indices read from the node map \<open>m\<close>.\<close>

definition pushResolved :: "(string \<rightharpoonup> nodeInfo) \<Rightarrow> prep \<Rightarrow> rawLink \<Rightarrow> prep" where
  "pushResolved m p e = pushLink p e (resolve m (link_source e)) (resolve m (link_target e))"

text \<open>The links of \<open>es\<close> that reach line 294 when the loop starts with link map \<open>lm\<close>.\<close>

definition candidates :: "(string \<rightharpoonup> RGBA option) \<Rightarrow> rawLink list \<Rightarrow> rawLink list" where
  "candidates lm es = firstByKey rawKey (filter (\<lambda>e. lm (rawKey e) = None) es)"

text \<open>The state after the node loop.\<close>

definition indexed :: "GraphData \<Rightarrow> prep" where
  "indexed d = foldl nodeStep prep0 (data_nodes d)"

text \<open>The links that reach line 294.\<close>

definition retained :: "GraphData \<Rightarrow> rawLink list" where
  "retained d = firstByKey rawKey (data_links d)"

text \<open>The (source, target) pair of a link.\<close>

definition rawPair :: "rawLink \<Rightarrow> string \<times> string" where
  "rawPair e = (link_source e, link_target e)"

text \<open>The count map holds one numeric count per key.\<close>

definition countInv :: "(string \<times> nat option) list \<Rightarrow> bool" where
  "countInv m \<longleftrightarrow> distinct (map fst m) \<and> list_all (\<lambda>kv. snd kv \<noteq> None) m"

text \<open>The link loop of \<^verbatim>\<open>updatePosition\<close> does not throw.\<close>

definition linksReady :: "graph \<Rightarrow> bool" where
  "linksReady g \<longleftrightarrow>
     linkCounts g \<le> length (links (processedData g)) \<and>
     list_all (linkResolvable (processedData g)) (take (linkCounts g) (links (processedData g)))"

text \<open>
  The three position buffers exist, as from the second tick on, and the link loop of
  \<^verbatim>\<open>updatePosition\<close> does not throw.
\<close>

definition buffersReady :: "graph \<Rightarrow> bool" where
  "buffersReady g \<longleftrightarrow>
     currentPositionStatus g \<noteq> None \<and> targetPositionStatus g \<noteq> None \<and>
     cachePositionStatus g \<noteq> None \<and> linksReady g"

text \<open>
  Two states hold the same positions: the same three buffers with the same contents, and the same
  coordinates handed to the renderer.
\<close>

definition samePositions :: "graph \<Rightarrow> graph \<Rightarrow> bool" where
  "samePositions g g' \<longleftrightarrow>
     currentPositionStatus g' = currentPositionStatus g \<and>
     targetPositionStatus g' = targetPositionStatus g \<and>
     cachePositionStatus g' = cachePositionStatus g \<and>
     heap g' = heap g \<and> nodesPositions g' = nodesPositions g"

text \<open>The four objects that \<^verbatim>\<open>addHighLight\<close> builds for a node.\<close>

definition highlightObjects :: "ProcessedData \<Rightarrow> string \<Rightarrow> object3D list" where
  "highlightObjects pd ident =
     (let ls = filter (\<lambda>e. source e = ident \<or> target e = ident) (links pd)
      in [\<lparr>obj_name = ''hlNodes'',
           obj_content = PointsAt (map (\<lambda>e. if target e = ident then source e else target e) ls @ [ident])\<rparr>,
          \<lparr>obj_name = ''hlLine'', obj_content = SegmentsOf ls\<rparr>,
          \<lparr>obj_name = ''hlArrow'', obj_content = ArrowsOf ls\<rparr>,
          \<lparr>obj_name = ''hlText'', obj_content = LabelOf ident\<rparr>])"

text \<open>
  The names given to highlight objects (\<^verbatim>\<open>hlNodes\<close>, \<^verbatim>\<open>hlLine\<close>, \<^verbatim>\<open>hlArrow\<close>,
  \<^verbatim>\<open>hlText\<close>) and the names \<^verbatim>\<open>unhighlight\<close> looks for.
\<close>

definition isHighlightName :: "string \<Rightarrow> bool" where
  "isHighlightName n = (n \<in> set [''hlNodes'', ''hlLine'', ''hlArrow'', ''hlText'', ''hlLines'', ''hlArrows''])"

subsection \<open>Example inputs\<close>

definition exNode :: "string \<Rightarrow> rawNode" where
  "exNode s = \<lparr>node_id = s, node_name = None, node_scale = None, node_image = None\<rparr>"

definition exLink :: "string \<Rightarrow> string \<Rightarrow> rawLink" where
  "exLink s t = \<lparr>link_source = s, link_target = t, link_color = None\<rparr>"

text \<open>The example scenario of the specification: three nodes, a duplicated link.\<close>

definition exData :: GraphData where
  "exData = \<lparr>data_nodes = [exNode ''a'', exNode ''b'', exNode ''c''],
             data_links = [exLink ''a'' ''b'', exLink ''a'' ''b'', exLink ''a'' ''c'']\<rparr>"

definition exCamera :: camera where
  "exCamera = \<lparr>cam_x = 0, cam_y = 0, cam_z = 20000, cam_aspect = 1\<rparr>"

text \<open>The example graph after its first two ticks, at clock values 10 and 20.\<close>

definition exGraph :: graph where
  "exGraph = onTick 20 2 [Num 1, Num 2, Num 3, Num 4, Num 5, Num 6]
               (onTick 10 1 [Num 0, Num 0, Num 0, Num 0, Num 0, Num 0] (projr (init exData exCamera)))"

text \<open>Two links whose keys coincide although their endpoints differ.\<close>

definition exCollide :: GraphData where
  "exCollide = \<lparr>data_nodes = [exNode ''a-b'', exNode ''c'', exNode ''a'', exNode ''b-c''],
                data_links = [exLink ''a-b'' ''c'', exLink ''a'' ''b-c'']\<rparr>"

text \<open>A node whose id is a property name of \<^verbatim>\<open>Object.prototype\<close>, between two ordinary ones.\<close>

definition exProtoNode :: GraphData where
  "exProtoNode = \<lparr>data_nodes = [exNode ''a'', exNode ''constructor'', exNode ''b''], data_links = []\<rparr>"

text \<open>A link between two ids that are no nodes but property names of \<^verbatim>\<open>Object.prototype\<close>.\<close>

definition exProtoLink :: GraphData where
  "exProtoLink = \<lparr>data_nodes = [], data_links = [exLink ''constructor'' ''toString'']\<rparr>"

text \<open>Two nodes with numeric ids, linked in both directions; the source seen first is \<open>2\<close>.\<close>

definition exNumeric :: GraphData where
  "exNumeric = \<lparr>data_nodes = [exNode ''2'', exNode ''1''],
                data_links = [exLink ''2'' ''1'', exLink ''1'' ''2'']\<rparr>"

text \<open>A graph of \<open>n\<close> nodes without links.\<close>

definition manyNodes :: "nat \<Rightarrow> GraphData" where
  "manyNodes n = \<lparr>data_nodes = map (\<lambda>i. exNode (replicate (Suc i) CHR ''n'')) [0..<n], data_links = []\<rparr>"

text \<open>
  That graph after its first two ticks, at clock values \<open>t1\<close> and \<open>t2\<close>: the first snapshot
  puts every coordinate at 0, the second at 10.
\<close>

definition tickedTwice :: "nat \<Rightarrow> int \<Rightarrow> int \<Rightarrow> graph" where
  "tickedTwice n t1 t2 =
     onTick t2 2 (replicate (2 * n) (Num 10))
       (onTick t1 1 (replicate (2 * n) (Num 0)) (projr (init (manyNodes n) exCamera)))"


text \<open>
  A camera controls update, as the map controls carry it out on a camera that looks straight
  down at its target while no input is pending: the angle between the view direction and the up
  axis is kept at least \<open>1 / 10 ^ 6\<close>, which tilts the camera by that angle about its target.
\<close>

definition exControls :: "camera \<Rightarrow> camera" where
  "exControls c = c\<lparr>cam_y := cam_y c - cam_z c * sin (1 / 10 ^ 6), cam_z := cam_z c * cos (1 / 10 ^ 6)\<rparr>"

text \<open>The example graph with a camera that was zoomed in to height 74.5.\<close>

definition exZoomedGraph :: graph where
  "exZoomedGraph = exGraph\<lparr>camera := \<lparr>cam_x = 0, cam_y = 0, cam_z = 149 / 2, cam_aspect = 1\<rparr>\<rparr>"

text \<open>The example graph with node \<open>a\<close> highlighted.\<close>

definition exHighlightedA :: graph where
  "exHighlightedA = projr (highlight ''a'' exGraph)"

section \<open>Properties\<close>

subsection \<open>Evaluating the examples\<close>

lemmas ex_defs = exGraph_def exData_def exNode_def exLink_def exCamera_def init_def preProcessData_def
  nodeStep_def linkStep_def prep0_def getProp_def objectPrototypeKeys_def linkInfoKey_def nodeIndex_def
  linkCountStep_def pushLink_def mkStatTable_def objectKeys_def countOf_def isArrayIndex_def isDigit_def decVal_def
  onTick_def alloc_def cacheCurrent_def startRender_def rd_def Let_def

lemma exGraph_simps:
  "nodeCounts exGraph = 3" "linkCounts exGraph = 2" "targetPositionStatus exGraph = Some 1"
  "currentPositionStatus exGraph = Some 0" "cachePositionStatus exGraph = Some 2"
  "camera exGraph = exCamera" "layouting exGraph" "intervalTime exGraph = 10" "prevTickTime exGraph = 20"
  "heap exGraph 0 = [Num 0, Num 0, Num 0, Num 0, Num 0, Num 0]"
  "heap exGraph 1 = [Num 1, Num 2, Num 3, Num 4, Num 5, Num 6]"
  "heap exGraph (Suc 0) = [Num 1, Num 2, Num 3, Num 4, Num 5, Num 6]"
  "heap exGraph 2 = [Num 0, Num 0, Num 0, Num 0, Num 0, Num 0]"
  "nodes (processedData exGraph) = [''a'', ''b'', ''c'']"
  "links (processedData exGraph) = [\<lparr>source = ''a'', target = ''b''\<rparr>, \<lparr>source = ''a'', target = ''c''\<rparr>]"
  "highlighted exGraph = None"
  by (simp_all add: ex_defs upt_rec)

lemma exData_init: "init exData exCamera = Inr (projr (init exData exCamera))"
  by (simp add: ex_defs)

subsection \<open>The node loop\<close>

lemma truthy_getProp: "truthy (getProp m k) \<longleftrightarrow> m k \<noteq> None \<or> k \<in> set objectPrototypeKeys"
  by (simp add: getProp_def split: option.splits)

lemma nodeInv_prep0: "nodeInv prep0"
  by (simp add: nodeInv_def prep0_def)

lemma nodeStep_nodes:
  "nodeInv p \<Longrightarrow> p_nodes (nodeStep p e) =
     (if node_id e \<notin> set objectPrototypeKeys \<and> node_id e \<notin> set (p_nodes p)
      then p_nodes p @ [node_id e] else p_nodes p)"
  by (auto simp: nodeStep_def truthy_getProp nodeInv_def)

lemma nodeInv_nodeStep: "nodeInv p \<Longrightarrow> nodeInv (nodeStep p e)"
  unfolding nodeInv_def nodeStep_def truthy_getProp
  by (auto simp: nth_append less_Suc_eq domIff)

lemma nodeStep_other:
  "p_links (nodeStep p e) = p_links p" "p_linkInfoMap (nodeStep p e) = p_linkInfoMap p"
  "p_linkCount (nodeStep p e) = p_linkCount p" "p_linkCountMap (nodeStep p e) = p_linkCountMap p"
  "p_linkBuffer (nodeStep p e) = p_linkBuffer p"
  by (simp_all add: nodeStep_def)

lemma nodeInv_foldl: "nodeInv p \<Longrightarrow> nodeInv (foldl nodeStep p es)"
  by (induction es arbitrary: p) (simp_all add: nodeInv_nodeStep)

lemma foldl_nodeStep_other:
  "p_links (foldl nodeStep p es) = p_links p \<and> p_linkInfoMap (foldl nodeStep p es) = p_linkInfoMap p \<and>
   p_linkCount (foldl nodeStep p es) = p_linkCount p \<and> p_linkCountMap (foldl nodeStep p es) = p_linkCountMap p \<and>
   p_linkBuffer (foldl nodeStep p es) = p_linkBuffer p"
  by (induction es arbitrary: p) (simp_all add: nodeStep_other)

lemma filter_neq_filter: "filter (\<lambda>y. f y \<noteq> a) (filter P xs) = filter (\<lambda>y. P y \<and> f y \<noteq> a) xs"
  by (induction xs) auto

lemma foldl_nodeStep_nodes:
  "nodeInv p \<Longrightarrow>
   p_nodes (foldl nodeStep p es) =
     p_nodes p @ firstByKey (\<lambda>k. k)
       (filter (\<lambda>k. k \<notin> set objectPrototypeKeys \<and> k \<notin> set (p_nodes p)) (map node_id es))"
proof (induction es arbitrary: p)
  case Nil
  then show ?case by simp
next
  case (Cons e es)
  have inv': "nodeInv (nodeStep p e)" using Cons.prems by (rule nodeInv_nodeStep)
  show ?case
  proof (cases "node_id e \<notin> set objectPrototypeKeys \<and> node_id e \<notin> set (p_nodes p)")
    case True
    then have n: "p_nodes (nodeStep p e) = p_nodes p @ [node_id e]"
      using Cons.prems by (simp add: nodeStep_nodes)
    have "filter (\<lambda>k. k \<notin> set objectPrototypeKeys \<and> k \<notin> set (p_nodes p @ [node_id e])) (map node_id es)
        = filter (\<lambda>y. y \<noteq> node_id e)
            (filter (\<lambda>k. k \<notin> set objectPrototypeKeys \<and> k \<notin> set (p_nodes p)) (map node_id es))"
      by (simp add: filter_neq_filter conj_ac)
    with True n Cons.IH [OF inv'] show ?thesis by simp
  next
    case False
    then have n: "p_nodes (nodeStep p e) = p_nodes p"
      using Cons.prems by (simp add: nodeStep_nodes)
    with False Cons.IH [OF inv'] show ?thesis by auto
  qed
qed

subsection \<open>First-wins deduplication\<close>

lemma set_firstByKey_subset: "set (firstByKey f xs) \<subseteq> set xs"
  by (induction f xs rule: firstByKey.induct) auto

lemma image_firstByKey: "f ` set (firstByKey f xs) = f ` set xs"
  by (induction f xs rule: firstByKey.induct) auto

lemma distinct_firstByKey: "distinct (map f (firstByKey f xs))"
proof (induction f xs rule: firstByKey.induct)
  case (1 f)
  then show ?case by simp
next
  case (2 f x xs)
  have "f x \<notin> f ` set (firstByKey f (filter (\<lambda>y. f y \<noteq> f x) xs))"
    by (auto simp: image_firstByKey)
  with 2 show ?case by simp
qed

lemma set_firstByKey_id: "set (firstByKey (\<lambda>k. k) xs) = set xs"
  using image_firstByKey [of "\<lambda>k. k" xs] by simp

lemma firstByKey_cong:
  "(\<And>x y. x \<in> set xs \<Longrightarrow> y \<in> set xs \<Longrightarrow> (f x = f y) = (g x = g y)) \<Longrightarrow>
   firstByKey f xs = firstByKey g xs"
proof (induction f xs rule: firstByKey.induct)
  case (1 f)
  then show ?case by simp
next
  case (2 f x xs)
  have flt: "filter (\<lambda>y. f y \<noteq> f x) xs = filter (\<lambda>y. g y \<noteq> g x) xs"
    using "2.prems" by (intro filter_cong) auto
  have "firstByKey f (filter (\<lambda>y. f y \<noteq> f x) xs) = firstByKey g (filter (\<lambda>y. f y \<noteq> f x) xs)"
    using "2.prems" by (intro "2.IH") auto
  with flt show ?case by simp
qed

lemma firstByKey_map: "firstByKey (\<lambda>k. k) (map f xs) = map f (firstByKey f xs)"
  by (induction f xs rule: firstByKey.induct) (simp_all add: filter_map comp_def)

lemma firstByKey_distinct: "distinct (map f xs) \<Longrightarrow> firstByKey f xs = xs"
proof (induction xs)
  case Nil
  then show ?case by simp
next
  case (Cons x xs)
  from Cons.prems have "f x \<notin> f ` set xs" by simp
  then have "filter (\<lambda>y. f y \<noteq> f x) xs = xs"
    by (intro filter_True) (metis imageI)
  with Cons show ?case by simp
qed

subsection \<open>The link loop\<close>

lemma dash_not_proto: "CHR ''-'' \<in> set k \<Longrightarrow> k \<notin> set objectPrototypeKeys"
  by (auto simp: objectPrototypeKeys_def)

lemma rawKey_not_proto: "rawKey e \<notin> set objectPrototypeKeys"
  by (rule dash_not_proto) (simp add: rawKey_def linkInfoKey_def)

lemma linkStep_char:
  "linkStep p e =
     (if p_linkInfoMap p (rawKey e) \<noteq> None then Inr p
      else if endpointsKnown (p_nodeInfoMap p) e then Inr (pushResolved (p_nodeInfoMap p) p e)
      else Inl TypeError)"
proof -
  have t: "truthy (getProp (p_linkInfoMap p) (rawKey e)) \<longleftrightarrow> p_linkInfoMap p (rawKey e) \<noteq> None"
    by (simp add: truthy_getProp rawKey_not_proto)
  show ?thesis
    unfolding linkStep_def rawKey_def [symmetric] t
    by (auto simp: endpointsKnown_def pushResolved_def nodeIndex_def resolve_def
        split: property.splits)
qed

lemma pushResolved_fields:
  "p_nodeInfoMap (pushResolved m p e) = p_nodeInfoMap p"
  "p_nodes (pushResolved m p e) = p_nodes p"
  "p_nodeCount (pushResolved m p e) = p_nodeCount p"
  "p_links (pushResolved m p e) = p_links p @ [toD3 e]"
  "p_linkBuffer (pushResolved m p e) = p_linkBuffer p @ [resolve m (link_source e), resolve m (link_target e)]"
  "p_linkInfoMap (pushResolved m p e) = (p_linkInfoMap p)(rawKey e \<mapsto> link_color e)"
  "p_linkCountMap (pushResolved m p e) = linkCountStep (p_linkCountMap p) (link_source e)"
  by (simp_all add: pushResolved_def pushLink_def toD3_def rawKey_def)

lemma candidates_Cons_new:
  "lm (rawKey e) = None \<Longrightarrow>
   candidates lm (e # es) = e # candidates (lm(rawKey e \<mapsto> c)) es"
proof -
  have "filter (\<lambda>y. rawKey y \<noteq> rawKey e) (filter (\<lambda>x. lm (rawKey x) = None) es)
      = filter (\<lambda>x. (lm(rawKey e \<mapsto> c)) (rawKey x) = None) es"
    unfolding filter_neq_filter by (rule filter_cong) auto
  then show "lm (rawKey e) = None \<Longrightarrow> ?thesis"
    by (simp add: candidates_def)
qed

lemma candidates_Cons_old: "lm (rawKey e) \<noteq> None \<Longrightarrow> candidates lm (e # es) = candidates lm es"
  by (auto simp: candidates_def)

lemma linkLoop_char:
  "p_nodeInfoMap p = m \<Longrightarrow>
   linkLoop p es =
     (if list_all (endpointsKnown m) (candidates (p_linkInfoMap p) es)
      then Inr (foldl (pushResolved m) p (candidates (p_linkInfoMap p) es))
      else Inl TypeError)"
proof (induction es arbitrary: p)
  case Nil
  then show ?case by (simp add: candidates_def)
next
  case (Cons e es)
  show ?case
  proof (cases "p_linkInfoMap p (rawKey e) = None")
    case False
    then show ?thesis
      using Cons.IH [OF Cons.prems] by (simp add: linkStep_char candidates_Cons_old)
  next
    case True
    note c = candidates_Cons_new [where lm = "p_linkInfoMap p" and e = e and es = es
        and c = "link_color e", OF True]
    show ?thesis
    proof (cases "endpointsKnown m e")
      case False
      then show ?thesis using True Cons.prems by (simp add: linkStep_char c)
    next
      case known: True
      have m': "p_nodeInfoMap (pushResolved m p e) = m"
        using Cons.prems by (simp add: pushResolved_fields)
      have ih: "linkLoop (pushResolved m p e) es =
          (if list_all (endpointsKnown m) (candidates ((p_linkInfoMap p)(rawKey e \<mapsto> link_color e)) es)
           then Inr (foldl (pushResolved m) (pushResolved m p e)
                      (candidates ((p_linkInfoMap p)(rawKey e \<mapsto> link_color e)) es))
           else Inl TypeError)"
        using Cons.IH [OF m'] by (simp only: pushResolved_fields)
      show ?thesis
        using True known Cons.prems by (simp add: linkStep_char c ih)
    qed
  qed
qed

lemma foldl_pushResolved_fields:
  "p_nodeInfoMap (foldl (pushResolved m) p es) = p_nodeInfoMap p"
  "p_nodes (foldl (pushResolved m) p es) = p_nodes p"
  "p_links (foldl (pushResolved m) p es) = p_links p @ map toD3 es"
  "p_linkBuffer (foldl (pushResolved m) p es) =
     p_linkBuffer p @ concat (map (\<lambda>e. [resolve m (link_source e), resolve m (link_target e)]) es)"
  "p_linkCountMap (foldl (pushResolved m) p es) = foldl linkCountStep (p_linkCountMap p) (map link_source es)"
  by (induction es arbitrary: p) (simp_all add: pushResolved_fields)

lemma foldl_pushResolved_infoMap_other:
  "k \<notin> rawKey ` set es \<Longrightarrow> p_linkInfoMap (foldl (pushResolved m) p es) k = p_linkInfoMap p k"
  by (induction es arbitrary: p) (simp_all add: pushResolved_fields)

lemma foldl_pushResolved_infoMap:
  "distinct (map rawKey es) \<Longrightarrow> e \<in> set es \<Longrightarrow>
   p_linkInfoMap (foldl (pushResolved m) p es) (rawKey e) = Some (link_color e)"
proof (induction es arbitrary: p)
  case Nil
  then show ?case by simp
next
  case (Cons x es)
  show ?case
  proof (cases "e = x")
    case True
    with Cons.prems show ?thesis
      by (simp add: foldl_pushResolved_infoMap_other pushResolved_fields)
  next
    case False
    with Cons.prems Cons.IH show ?thesis by simp
  qed
qed

subsection \<open>\<^verbatim>\<open>preProcessData\<close> as a whole\<close>

lemma candidates_empty: "candidates Map.empty es = firstByKey rawKey es"
  by (simp add: candidates_def)

lemma indexed_fields:
  "p_links (indexed d) = []" "p_linkInfoMap (indexed d) = Map.empty"
  "p_linkCountMap (indexed d) = []" "p_linkBuffer (indexed d) = []"
  using foldl_nodeStep_other [of prep0 "data_nodes d"] by (simp_all add: indexed_def prep0_def)

lemma nodeInv_indexed: "nodeInv (indexed d)"
  unfolding indexed_def by (rule nodeInv_foldl [OF nodeInv_prep0])

lemma nodes_indexed:
  "p_nodes (indexed d) =
     firstByKey (\<lambda>k. k) (filter (\<lambda>k. k \<notin> set objectPrototypeKeys) (map node_id (data_nodes d)))"
  unfolding indexed_def using foldl_nodeStep_nodes [OF nodeInv_prep0, of "data_nodes d"]
  by (simp add: prep0_def)

lemma preProcessData_char:
  "preProcessData d =
     (if list_all (endpointsKnown (p_nodeInfoMap (indexed d))) (retained d)
      then Inr \<lparr>nodes = p_nodes (indexed d), links = map toD3 (retained d),
                nodeInfoMap = p_nodeInfoMap (indexed d),
                linkInfoMap = p_linkInfoMap (foldl (pushResolved (p_nodeInfoMap (indexed d))) (indexed d) (retained d)),
                linkBuffer = map toInt32 (concat (map (\<lambda>e. [resolve (p_nodeInfoMap (indexed d)) (link_source e),
                                                             resolve (p_nodeInfoMap (indexed d)) (link_target e)])
                                                      (retained d))),
                statTable = mkStatTable (foldl linkCountStep [] (map link_source (retained d)))\<rparr>
      else Inl TypeError)"
  unfolding preProcessData_def indexed_def [symmetric]
  by (simp add: linkLoop_char [OF refl] indexed_fields candidates_empty retained_def
      foldl_pushResolved_fields)

lemma resolve_node:
  assumes "nodeInv p" and "k \<in> set (p_nodes p)"
  shows "\<exists>i < length (p_nodes p). p_nodes p ! i = k \<and> resolve (p_nodeInfoMap p) k = Some i \<and>
           truthy (getProp (p_nodeInfoMap p) k)"
proof -
  from assms(2) obtain i where i: "i < length (p_nodes p)" "p_nodes p ! i = k"
    by (auto simp: in_set_conv_nth)
  with assms(1) have "map_option info_index (p_nodeInfoMap p k) = Some i"
    by (auto simp: nodeInv_def)
  then obtain info where "p_nodeInfoMap p k = Some info" "info_index info = i"
    by auto
  then have "resolve (p_nodeInfoMap p) k = Some i \<and> truthy (getProp (p_nodeInfoMap p) k)"
    by (simp add: resolve_def getProp_def)
  with i show ?thesis by blast
qed

lemma concat_pairs_length: "length (concat (map (\<lambda>e. [a e, b e]) xs)) = 2 * length xs"
  by (induction xs) simp_all

lemma concat_pairs_nth:
  "j < length xs \<Longrightarrow>
   concat (map (\<lambda>e. [a e, b e]) xs) ! (2 * j) = a (xs ! j) \<and>
   concat (map (\<lambda>e. [a e, b e]) xs) ! (2 * j + 1) = b (xs ! j)"
proof (induction xs arbitrary: j)
  case Nil
  then show ?case by simp
next
  case (Cons x xs)
  then show ?case by (cases j) simp_all
qed

lemma linkInfoKey_inj:
  assumes "linkInfoKey s t = linkInfoKey s' t'" and "CHR ''-'' \<notin> set s" and "CHR ''-'' \<notin> set s'"
  shows "s = s' \<and> t = t'"
proof -
  have "takeWhile (\<lambda>c. c \<noteq> CHR ''-'') (s @ CHR ''-'' # t) = s"
    if "CHR ''-'' \<notin> set s" for s t
    using that by (induction s) auto
  with assms have "s = s'"
    by (metis linkInfoKey_def append_Cons append_Nil)
  with assms(1) show ?thesis by (simp add: linkInfoKey_def)
qed

subsection \<open>The count map\<close>

lemma update_absent: "k \<notin> fst ` set al \<Longrightarrow> AList.update k v al = al @ [(k, v)]"
  by (induction al) auto

lemma linkCountStep_update:
  assumes "s \<notin> set objectPrototypeKeys" and "countInv m"
  shows "linkCountStep m s = AList.update s (Some (countOf m s + 1)) m"
proof (cases "map_of m s")
  case None
  then have "s \<notin> fst ` set m" by (simp add: map_of_eq_None_iff)
  with None assms(1) show ?thesis
    by (auto simp: linkCountStep_def countOf_def update_absent objectPrototypeKeys_def)
next
  case (Some v)
  then have "(s, v) \<in> set m" by (rule map_of_SomeD)
  with assms(2) obtain n where "v = Some n"
    by (auto simp: countInv_def list_all_iff)
  with Some show ?thesis by (simp add: linkCountStep_def countOf_def)
qed

lemma set_update_subset: "set (AList.update k v al) \<subseteq> insert (k, v) (set al)"
  by (induction al) auto

lemma countInv_update: "countInv m \<Longrightarrow> countInv (AList.update s (Some n) m)"
  unfolding countInv_def list_all_iff
  using set_update_subset [of s "Some n" m] by (auto simp: distinct_update)

lemma countOf_update: "countOf (AList.update s (Some n) m) k = (if k = s then n else countOf m k)"
  by (simp add: countOf_def update_conv')

lemma foldl_linkCountStep:
  assumes "countInv m" and "set ss \<inter> set objectPrototypeKeys = {}"
  shows "countInv (foldl linkCountStep m ss) \<and>
         map fst (foldl linkCountStep m ss) =
           map fst m @ firstByKey (\<lambda>k. k) (filter (\<lambda>k. k \<notin> set (map fst m)) ss) \<and>
         (\<forall>k. countOf (foldl linkCountStep m ss) k = countOf m k + count_list ss k)"
  using assms
proof (induction ss arbitrary: m)
  case Nil
  then show ?case by simp
next
  case (Cons s ss)
  let ?m' = "AList.update s (Some (countOf m s + 1)) m"
  from Cons.prems have step: "linkCountStep m s = ?m'"
    by (intro linkCountStep_update) auto
  have inv': "countInv ?m'" using Cons.prems(1) by (rule countInv_update)
  from Cons.prems have rest: "set ss \<inter> set objectPrototypeKeys = {}" by auto
  note ih = Cons.IH [OF inv' rest]
  have keys: "map fst ?m' = (if s \<in> set (map fst m) then map fst m else map fst m @ [s])"
    by (rule update_keys)
  have flt: "filter (\<lambda>k. k \<notin> set (map fst m @ [s])) ss
           = filter (\<lambda>y. y \<noteq> s) (filter (\<lambda>k. k \<notin> set (map fst m)) ss)"
    unfolding filter_neq_filter by (rule filter_cong) auto
  have flt': "s \<in> set (map fst m) \<Longrightarrow>
      filter (\<lambda>k. k \<notin> set (map fst m)) (s # ss) = filter (\<lambda>k. k \<notin> set (map fst m)) ss"
    by simp
  show ?case
  proof (intro conjI allI)
    show "countInv (foldl linkCountStep m (s # ss))" using ih by (simp add: step)
    show "map fst (foldl linkCountStep m (s # ss)) =
           map fst m @ firstByKey (\<lambda>k. k) (filter (\<lambda>k. k \<notin> set (map fst m)) (s # ss))"
    proof (cases "s \<in> set (map fst m)")
      case True
      with ih keys show ?thesis by (simp add: step del: set_map)
    next
      case False
      with ih keys flt show ?thesis by (simp add: step del: set_map)
    qed
    show "countOf (foldl linkCountStep m (s # ss)) k = countOf m k + count_list (s # ss) k" for k
      using ih by (simp add: step countOf_update)
  qed
qed

lemma count_list_sources: "count_list (map source ls) k = outDegree ls k"
  by (induction ls) (simp_all add: outDegree_def)

subsection \<open>The order of \<^verbatim>\<open>Object.keys\<close>\<close>

lemma set_objectKeys: "set (objectKeys ks) = set ks"
  by (auto simp: objectKeys_def)

lemma distinct_objectKeys: "distinct ks \<Longrightarrow> distinct (objectKeys ks)"
  by (auto simp: objectKeys_def)

lemma objectKeys_no_index: "\<forall>k \<in> set ks. \<not> isArrayIndex k \<Longrightarrow> objectKeys ks = ks"
  by (simp add: objectKeys_def filter_empty_conv [THEN iffD2] cong: filter_cong)

lemma preProcessData_fields:
  assumes "preProcessData d = Inr r"
  shows "nodes r = p_nodes (indexed d)" "links r = map toD3 (retained d)"
    "nodeInfoMap r = p_nodeInfoMap (indexed d)"
    "statTable r = mkStatTable (foldl linkCountStep [] (map source (links r)))"
    "list_all (endpointsKnown (p_nodeInfoMap (indexed d))) (retained d)"
proof -
  have src: "map (source \<circ> toD3) es = map link_source es" for es
    by (simp add: toD3_def)
  from assms have req: "list_all (endpointsKnown (p_nodeInfoMap (indexed d))) (retained d) \<and>
      r = \<lparr>nodes = p_nodes (indexed d), links = map toD3 (retained d),
                nodeInfoMap = p_nodeInfoMap (indexed d),
                linkInfoMap = p_linkInfoMap (foldl (pushResolved (p_nodeInfoMap (indexed d))) (indexed d) (retained d)),
                linkBuffer = map toInt32 (concat (map (\<lambda>e. [resolve (p_nodeInfoMap (indexed d)) (link_source e),
                                                             resolve (p_nodeInfoMap (indexed d)) (link_target e)])
                                                      (retained d))),
                statTable = mkStatTable (foldl linkCountStep [] (map link_source (retained d)))\<rparr>"
    by (auto simp: preProcessData_char split: if_splits)
  then show "nodes r = p_nodes (indexed d)" "links r = map toD3 (retained d)"
    "nodeInfoMap r = p_nodeInfoMap (indexed d)"
    "statTable r = mkStatTable (foldl linkCountStep [] (map source (links r)))"
    "list_all (endpointsKnown (p_nodeInfoMap (indexed d))) (retained d)"
    by (simp_all add: src)
qed

lemma mkStatTable_countInv:
  "countInv m \<Longrightarrow>
   mkStatTable m = Some (take 20 (sort_key (\<lambda>r. - int (row_count r))
      (map (\<lambda>k. \<lparr>row_source = k, row_count = countOf m k\<rparr>) (objectKeys (map fst m)))))"
  by (simp add: mkStatTable_def countInv_def Let_def)

subsection \<open>Node indexing\<close>

lemma exData_ok: "preProcessData exData = Inr (projr (preProcessData exData))"
  by (simp add: ex_defs)

lemma exData_result:
  "nodes (projr (preProcessData exData)) = [''a'', ''b'', ''c'']"
  "links (projr (preProcessData exData)) = [\<lparr>source = ''a'', target = ''b''\<rparr>, \<lparr>source = ''a'', target = ''c''\<rparr>]"
  "linkBuffer (projr (preProcessData exData)) = [0, 1, 0, 2]"
  "statTable (projr (preProcessData exData)) = Some [\<lparr>row_source = ''a'', row_count = 2\<rparr>]"
  by (simp_all add: ex_defs)

text \<open>
  What the node loop establishes: the indexed ids are the first occurrences of the ids that are
  no property names of \<^verbatim>\<open>Object.prototype\<close>, in input order, and the entry of the \<open>i\<close>-th
  of them holds the index \<open>i\<close>.
\<close>

lemma preProcessData_nodes:
  assumes "preProcessData d = Inr r"
  shows "nodes r = firstByKey (\<lambda>k. k)
           (filter (\<lambda>k. k \<notin> set objectPrototypeKeys) (map node_id (data_nodes d)))"
    and "distinct (nodes r)"
    and "dom (nodeInfoMap r) = set (nodes r)"
    and "\<forall>i < length (nodes r). map_option info_index (nodeInfoMap r (nodes r ! i)) = Some i"
  using nodeInv_indexed [of d]
  by (simp_all add: preProcessData_fields [OF assms] nodes_indexed [symmetric] nodeInv_def)

text \<open>
  C1. Indexing is meant to give every distinct node id the next index. It does not for an id
  that names a property of \<^verbatim>\<open>Object.prototype\<close>: \<^verbatim>\<open>!result.nodeInfoMap[e.id]\<close> reads the
  inherited property, which is truthy, and the node is skipped as if it were a duplicate. On the
  nodes \<open>a\<close>, \<open>constructor\<close>, \<open>b\<close> only \<open>a\<close> and \<open>b\<close> are indexed.
\<close>

theorem preProcessData_prototype_id:
  "preProcessData exProtoNode = Inr (projr (preProcessData exProtoNode)) \<and>
   nodes (projr (preProcessData exProtoNode)) = [''a'', ''b''] \<and>
   nodeInfoMap (projr (preProcessData exProtoNode)) ''constructor'' = None \<and>
   map_option info_index (nodeInfoMap (projr (preProcessData exProtoNode)) ''b'') = Some 1"
  by (simp add: exProtoNode_def ex_defs)

subsection \<open>Link indexing\<close>

text \<open>
  C2, amended. When every link endpoint is the id of a node and no property name of
  \<^verbatim>\<open>Object.prototype\<close>, indexing succeeds; it keeps, of the links with the same key
  \<^verbatim>\<open>source-target\<close>, the first one and its color; the buffer holds two entries per kept link,
  the index of its source and then of its target, at the link's position. Links with the same
  key are the links with the same (source, target) pair when no source id contains a hyphen.
\<close>

theorem links_indexing:
  assumes "\<forall>e \<in> set (data_links d).
             link_source e \<in> node_id ` set (data_nodes d) \<and> link_source e \<notin> set objectPrototypeKeys \<and>
             link_target e \<in> node_id ` set (data_nodes d) \<and> link_target e \<notin> set objectPrototypeKeys"
  shows "\<exists>r. preProcessData d = Inr r \<and>
           links r = map toD3 (firstByKey rawKey (data_links d)) \<and>
           (\<forall>e \<in> set (firstByKey rawKey (data_links d)). linkInfoMap r (rawKey e) = Some (link_color e)) \<and>
           length (linkBuffer r) = 2 * length (links r) \<and>
           (\<forall>j < length (links r). \<exists>si ti.
               si < length (nodes r) \<and> nodes r ! si = source (links r ! j) \<and>
               ti < length (nodes r) \<and> nodes r ! ti = target (links r ! j) \<and>
               linkBuffer r ! (2 * j) = of_nat si \<and> linkBuffer r ! (2 * j + 1) = of_nat ti) \<and>
           ((\<forall>e \<in> set (data_links d). CHR ''-'' \<notin> set (link_source e)) \<longrightarrow>
              links r = map toD3 (firstByKey rawPair (data_links d)))"
proof -
  let ?p = "indexed d" and ?m = "p_nodeInfoMap (indexed d)" and ?cs = "retained d"
  let ?g = "\<lambda>e. [resolve ?m (link_source e), resolve ?m (link_target e)]"
  have inv: "nodeInv ?p" by (rule nodeInv_indexed)
  have sub: "set ?cs \<subseteq> set (data_links d)"
    unfolding retained_def by (rule set_firstByKey_subset)
  have node: "k \<in> set (p_nodes ?p)"
    if "k \<in> node_id ` set (data_nodes d)" "k \<notin> set objectPrototypeKeys" for k
  proof -
    have "set (p_nodes ?p) = set (filter (\<lambda>k. k \<notin> set objectPrototypeKeys) (map node_id (data_nodes d)))"
      unfolding nodes_indexed by (rule set_firstByKey_id)
    with that show ?thesis by auto
  qed
  have src: "link_source e \<in> set (p_nodes ?p)" and tgt: "link_target e \<in> set (p_nodes ?p)"
    if "e \<in> set ?cs" for e
    using that sub assms node by blast+
  have known: "list_all (endpointsKnown ?m) ?cs"
    unfolding list_all_iff endpointsKnown_def
    using resolve_node [OF inv src] resolve_node [OF inv tgt] by blast
  define r where "r = projr (preProcessData d)"
  have r: "preProcessData d = Inr r"
    unfolding r_def using known by (simp add: preProcessData_char)
  have fields: "nodes r = p_nodes ?p" "links r = map toD3 ?cs"
    "linkBuffer r = map toInt32 (concat (map ?g ?cs))"
    "linkInfoMap r = p_linkInfoMap (foldl (pushResolved ?m) ?p ?cs)"
    using r known by (auto simp: preProcessData_char)
  have colors: "\<forall>e \<in> set ?cs. linkInfoMap r (rawKey e) = Some (link_color e)"
    unfolding fields retained_def
    by (auto intro!: foldl_pushResolved_infoMap distinct_firstByKey)
  have len: "length (linkBuffer r) = 2 * length (links r)"
    by (simp add: fields concat_pairs_length)
  have buf: "\<exists>si ti. si < length (nodes r) \<and> nodes r ! si = source (links r ! j) \<and>
               ti < length (nodes r) \<and> nodes r ! ti = target (links r ! j) \<and>
               linkBuffer r ! (2 * j) = of_nat si \<and> linkBuffer r ! (2 * j + 1) = of_nat ti"
    if j: "j < length (links r)" for j
  proof -
    from j have j': "j < length ?cs" by (simp add: fields)
    then have mem: "?cs ! j \<in> set ?cs" by simp
    from resolve_node [OF inv src [OF mem]] obtain si where
      si: "si < length (p_nodes ?p)" "p_nodes ?p ! si = link_source (?cs ! j)"
          "resolve ?m (link_source (?cs ! j)) = Some si" by blast
    from resolve_node [OF inv tgt [OF mem]] obtain ti where
      ti: "ti < length (p_nodes ?p)" "p_nodes ?p ! ti = link_target (?cs ! j)"
          "resolve ?m (link_target (?cs ! j)) = Some ti" by blast
    from j' have "2 * j < length (concat (map ?g ?cs))" "2 * j + 1 < length (concat (map ?g ?cs))"
      by (simp_all add: concat_pairs_length)
    then have "linkBuffer r ! (2 * j) = toInt32 (resolve ?m (link_source (?cs ! j)))"
      "linkBuffer r ! (2 * j + 1) = toInt32 (resolve ?m (link_target (?cs ! j)))"
      using concat_pairs_nth [OF j', of "\<lambda>e. resolve ?m (link_source e)" "\<lambda>e. resolve ?m (link_target e)"]
      by (simp_all add: fields)
    with si ti j' show ?thesis
      by (intro exI [of _ si] exI [of _ ti]) (simp add: fields toD3_def)
  qed
  have pairs: "links r = map toD3 (firstByKey rawPair (data_links d))"
    if nodash: "\<forall>e \<in> set (data_links d). CHR ''-'' \<notin> set (link_source e)"
  proof -
    have "firstByKey rawKey (data_links d) = firstByKey rawPair (data_links d)"
    proof (rule firstByKey_cong)
      fix x y assume xy: "x \<in> set (data_links d)" "y \<in> set (data_links d)"
      show "(rawKey x = rawKey y) = (rawPair x = rawPair y)"
      proof
        assume "rawKey x = rawKey y"
        then have "linkInfoKey (link_source x) (link_target x) = linkInfoKey (link_source y) (link_target y)"
          by (simp add: rawKey_def)
        moreover from nodash xy have "CHR ''-'' \<notin> set (link_source x)" "CHR ''-'' \<notin> set (link_source y)"
          by blast+
        ultimately have "link_source x = link_source y \<and> link_target x = link_target y"
          by (rule linkInfoKey_inj)
        then show "rawPair x = rawPair y" by (simp add: rawPair_def)
      next
        assume "rawPair x = rawPair y"
        then show "rawKey x = rawKey y" by (simp add: rawPair_def rawKey_def)
      qed
    qed
    then show ?thesis by (simp add: fields retained_def)
  qed
  show ?thesis
  proof (intro exI [of _ r] conjI)
    show "preProcessData d = Inr r" by (rule r)
    show "links r = map toD3 (firstByKey rawKey (data_links d))"
      by (simp add: fields(2) retained_def)
    show "\<forall>e \<in> set (firstByKey rawKey (data_links d)). linkInfoMap r (rawKey e) = Some (link_color e)"
      using colors by (simp add: retained_def)
    show "length (linkBuffer r) = 2 * length (links r)" by (rule len)
    show "\<forall>j < length (links r). \<exists>si ti.
               si < length (nodes r) \<and> nodes r ! si = source (links r ! j) \<and>
               ti < length (nodes r) \<and> nodes r ! ti = target (links r ! j) \<and>
               linkBuffer r ! (2 * j) = of_nat si \<and> linkBuffer r ! (2 * j + 1) = of_nat ti"
      using buf by blast
    show "(\<forall>e \<in> set (data_links d). CHR ''-'' \<notin> set (link_source e)) \<longrightarrow>
              links r = map toD3 (firstByKey rawPair (data_links d))"
      using pairs by blast
  qed
qed

theorem links_indexing_witness:
  "preProcessData exData = Inr (projr (preProcessData exData)) \<and>
   links (projr (preProcessData exData)) =
     [\<lparr>source = ''a'', target = ''b''\<rparr>, \<lparr>source = ''a'', target = ''c''\<rparr>] \<and>
   linkBuffer (projr (preProcessData exData)) = [0, 1, 0, 2]"
proof -
  have "\<forall>e \<in> set (data_links exData).
             link_source e \<in> node_id ` set (data_nodes exData) \<and> link_source e \<notin> set objectPrototypeKeys \<and>
             link_target e \<in> node_id ` set (data_nodes exData) \<and> link_target e \<notin> set objectPrototypeKeys"
    by (simp add: exData_def exNode_def exLink_def objectPrototypeKeys_def)
  from links_indexing [OF this] obtain r where "preProcessData exData = Inr r" by blast
  then have "preProcessData exData = Inr (projr (preProcessData exData))" by simp
  then show ?thesis by (simp only: exData_result simp_thms)
qed

text \<open>
  The claim as stated fails where two different pairs have the same key: of the links
  \<open>a-b\<close> to \<open>c\<close> and \<open>a\<close> to \<open>b-c\<close>, whose endpoints all are nodes, only the first is kept.
\<close>

theorem links_indexing_counterexample:
  "preProcessData exCollide = Inr (projr (preProcessData exCollide)) \<and>
   nodes (projr (preProcessData exCollide)) = [''a-b'', ''c'', ''a'', ''b-c''] \<and>
   links (projr (preProcessData exCollide)) = [\<lparr>source = ''a-b'', target = ''c''\<rparr>] \<and>
   map toD3 (firstByKey rawPair (data_links exCollide)) =
     [\<lparr>source = ''a-b'', target = ''c''\<rparr>, \<lparr>source = ''a'', target = ''b-c''\<rparr>]"
  by (simp add: exCollide_def ex_defs rawPair_def toD3_def)

text \<open>
  A link with an endpoint that is no property of \<^verbatim>\<open>nodeInfoMap\<close>, neither own nor inherited,
  makes line 298 throw when it is the first link with its key.
\<close>

lemma preProcessData_dangling:
  assumes "e \<in> set (firstByKey rawKey (data_links d))"
    and "\<not> truthy (getProp (p_nodeInfoMap (indexed d)) (link_source e)) \<or>
         \<not> truthy (getProp (p_nodeInfoMap (indexed d)) (link_target e))"
  shows "preProcessData d = Inl TypeError"
proof -
  from assms have "\<not> list_all (endpointsKnown (p_nodeInfoMap (indexed d))) (retained d)"
    by (auto simp: list_all_iff retained_def endpointsKnown_def)
  then show ?thesis by (simp add: preProcessData_char)
qed

text \<open>
  C3. A link whose endpoints are no nodes must abort the load or be dropped, and nothing out of
  range may reach the buffer. For endpoints that name properties of \<^verbatim>\<open>Object.prototype\<close>
  neither happens: \<^verbatim>\<open>result.nodeInfoMap[e.source]\<close> is the inherited property, its
  \<^verbatim>\<open>index\<close> is \<^verbatim>\<open>undefined\<close>, nothing is thrown, the link is kept and the
  \<^verbatim>\<open>Int32Array\<close> receives 0 for each endpoint, here with no node at all.
\<close>

theorem preProcessData_prototype_endpoint:
  "preProcessData exProtoLink = Inr (projr (preProcessData exProtoLink)) \<and>
   nodes (projr (preProcessData exProtoLink)) = [] \<and>
   links (projr (preProcessData exProtoLink)) = [\<lparr>source = ''constructor'', target = ''toString''\<rparr>] \<and>
   linkBuffer (projr (preProcessData exProtoLink)) = [0, 0]"
  by (simp add: exProtoLink_def ex_defs)

subsection \<open>The degree ranking\<close>

text \<open>
  C8, amended. When indexing succeeds and every kept link leaves an indexed node, the ranking
  \<open>t\<close> consists of the first 20 rows of a list \<open>full\<close> that has one row per source of a kept
  link, holding the number of kept links that leave it, in non-increasing order of that number.
  Rows with the same number stand in the order of \<^verbatim>\<open>Object.keys\<close>: sources that are array
  indices first, by ascending value, then the other sources in first-seen order; this is the
  first-seen order when no source is an array index.
\<close>

theorem statTable_ranking:
  assumes r: "preProcessData d = Inr r"
    and src: "\<forall>l \<in> set (links r). source l \<in> set (nodes r)"
  shows "\<exists>t full. statTable r = Some t \<and> t = take 20 full \<and> length t \<le> 20 \<and>
           sorted_wrt (\<lambda>a b. row_count b \<le> row_count a) t \<and>
           sorted_wrt (\<lambda>a b. row_count b \<le> row_count a) full \<and>
           (\<forall>row \<in> set full. row_count row = outDegree (links r) (row_source row)) \<and>
           distinct (map row_source full) \<and>
           set (map row_source full) = source ` set (links r) \<and>
           (\<forall>c. map row_source (filter (\<lambda>row. row_count row = c) full) =
                filter (\<lambda>k. outDegree (links r) k = c)
                  (objectKeys (firstByKey (\<lambda>k. k) (map source (links r))))) \<and>
           ((\<forall>l \<in> set (links r). \<not> isArrayIndex (source l)) \<longrightarrow>
              (\<forall>c. map row_source (filter (\<lambda>row. row_count row = c) full) =
                   filter (\<lambda>k. outDegree (links r) k = c)
                     (firstByKey (\<lambda>k. k) (map source (links r)))))"
proof -
  let ?ss = "map source (links r)"
  let ?keys = "firstByKey (\<lambda>k. k) ?ss"
  let ?m = "foldl linkCountStep [] ?ss"
  let ?mk = "\<lambda>k. \<lparr>row_source = k, row_count = countOf ?m k\<rparr>"
  let ?rows = "map ?mk (objectKeys ?keys)"
  let ?key = "\<lambda>r. - int (row_count r)"
  define full where "full = sort_key ?key ?rows"
  have "nodeInv (indexed d)" by (rule nodeInv_indexed)
  then have "set (nodes r) \<inter> set objectPrototypeKeys = {}"
    by (simp add: preProcessData_fields(1) [OF r] nodeInv_def)
  with src have noproto: "set ?ss \<inter> set objectPrototypeKeys = {}" by auto
  have "countInv []" by (simp add: countInv_def)
  from foldl_linkCountStep [OF this noproto]
  have inv: "countInv ?m" and keys: "map fst ?m = ?keys"
    and cnt: "\<And>k. countOf ?m k = outDegree (links r) k"
    by (simp_all add: countOf_def count_list_sources)
  have tbl: "statTable r = Some (take 20 full)"
    by (simp add: preProcessData_fields(4) [OF r] mkStatTable_countInv [OF inv] keys full_def)
  have rows: "?rows = map (\<lambda>k. \<lparr>row_source = k, row_count = outDegree (links r) k\<rparr>) (objectKeys ?keys)"
    by (simp add: cnt)
  have set_keys: "set (objectKeys ?keys) = set ?ss"
    by (simp add: set_objectKeys set_firstByKey_id)
  have dist_keys: "distinct (objectKeys ?keys)"
    using distinct_firstByKey [of "\<lambda>k. k" ?ss] by (intro distinct_objectKeys) simp
  have "sorted (map ?key full)" by (simp add: full_def)
  then have sorted_full: "sorted_wrt (\<lambda>a b. row_count b \<le> row_count a) full"
    by (simp add: sorted_map)
  have counts: "\<forall>row \<in> set full. row_count row = outDegree (links r) (row_source row)"
    by (auto simp: full_def rows)
  have dist_full: "distinct (map row_source full)"
  proof -
    have "distinct ?rows" using dist_keys by (simp add: distinct_map inj_on_def)
    moreover have "inj_on row_source (set ?rows)" by (auto simp: inj_on_def rows)
    ultimately show ?thesis by (simp add: full_def distinct_map)
  qed
  have set_full: "set (map row_source full) = source ` set (links r)"
    using set_keys by (simp add: full_def image_image)
  have ties: "map row_source (filter (\<lambda>row. row_count row = c) full) =
                filter (\<lambda>k. outDegree (links r) k = c) (objectKeys ?keys)" for c
  proof -
    have "filter (\<lambda>row. row_count row = c) full = filter (\<lambda>row. ?key row = - int c) full"
      by simp
    also have "\<dots> = filter (\<lambda>row. ?key row = - int c) ?rows"
      unfolding full_def by (rule sort_key_stable)
    also have "\<dots> = map (\<lambda>k. \<lparr>row_source = k, row_count = outDegree (links r) k\<rparr>)
                       (filter (\<lambda>k. outDegree (links r) k = c) (objectKeys ?keys))"
      by (simp add: rows filter_map comp_def)
    finally show ?thesis by (simp add: comp_def)
  qed
  have ties': "map row_source (filter (\<lambda>row. row_count row = c) full) =
                filter (\<lambda>k. outDegree (links r) k = c) ?keys"
    if "\<forall>l \<in> set (links r). \<not> isArrayIndex (source l)" for c
  proof -
    from that have "\<forall>k \<in> set ?keys. \<not> isArrayIndex k"
      by (auto simp: set_firstByKey_id)
    then have "objectKeys ?keys = ?keys" by (rule objectKeys_no_index)
    with ties [of c] show ?thesis by simp
  qed
  show ?thesis
  proof (rule exI [of _ "take 20 full"], rule exI [of _ full], intro conjI)
    show "statTable r = Some (take 20 full)" by (rule tbl)
    show "take 20 full = take 20 full" by (rule refl)
    show "length (take 20 full) \<le> 20" by simp
    show "sorted_wrt (\<lambda>a b. row_count b \<le> row_count a) (take 20 full)"
      using sorted_full by (rule sorted_wrt_take)
    show "sorted_wrt (\<lambda>a b. row_count b \<le> row_count a) full" by (rule sorted_full)
    show "\<forall>row \<in> set full. row_count row = outDegree (links r) (row_source row)" by (rule counts)
    show "distinct (map row_source full)" by (rule dist_full)
    show "set (map row_source full) = source ` set (links r)" by (rule set_full)
    show "\<forall>c. map row_source (filter (\<lambda>row. row_count row = c) full) =
                filter (\<lambda>k. outDegree (links r) k = c)
                  (objectKeys (firstByKey (\<lambda>k. k) (map source (links r))))"
      using ties by blast
    show "(\<forall>l \<in> set (links r). \<not> isArrayIndex (source l)) \<longrightarrow>
              (\<forall>c. map row_source (filter (\<lambda>row. row_count row = c) full) =
                   filter (\<lambda>k. outDegree (links r) k = c)
                     (firstByKey (\<lambda>k. k) (map source (links r))))"
      using ties' by blast
  qed
qed

theorem statTable_ranking_witness:
  "preProcessData exData = Inr (projr (preProcessData exData)) \<and>
   statTable (projr (preProcessData exData)) = Some [\<lparr>row_source = ''a'', row_count = 2\<rparr>]"
proof -
  have "\<forall>l \<in> set (links (projr (preProcessData exData))). source l \<in> set (nodes (projr (preProcessData exData)))"
    by (simp add: exData_result)
  from statTable_ranking [OF exData_ok this]
  obtain t where "statTable (projr (preProcessData exData)) = Some t" by blast
  with exData_ok show ?thesis by (simp only: exData_result simp_thms)
qed

text \<open>
  The claim as stated fails on numeric ids: the sources \<open>2\<close> and \<open>1\<close>, seen in this order
  with one link each, are ranked \<open>1\<close> before \<open>2\<close>.
\<close>

theorem statTable_ranking_counterexample:
  "preProcessData exNumeric = Inr (projr (preProcessData exNumeric)) \<and>
   links (projr (preProcessData exNumeric)) = [\<lparr>source = ''2'', target = ''1''\<rparr>, \<lparr>source = ''1'', target = ''2''\<rparr>] \<and>
   statTable (projr (preProcessData exNumeric)) =
     Some [\<lparr>row_source = ''1'', row_count = 1\<rparr>, \<lparr>row_source = ''2'', row_count = 1\<rparr>]"
  by (simp add: exNumeric_def ex_defs)

subsection \<open>Frames of the render loop\<close>

lemma copyLoop_prefix:
  "c \<noteq> cur \<Longrightarrow> k \<le> length (h c) \<Longrightarrow>
   foldl (\<lambda>h i. h(c := (h c)[i := toNumber (rd (h cur) i)])) h [0..<k]
   = h(c := map (\<lambda>i. toNumber (rd (h cur) i)) [0..<k] @ drop k (h c))"
proof (induction k)
  case 0
  then show ?case by simp
next
  case (Suc k)
  let ?g = "\<lambda>i. toNumber (rd (h cur) i)"
  from Suc.prems have k: "k < length (h c)" by simp
  have upd: "(map ?g [0..<k] @ drop k (h c))[k := v] = map ?g [0..<k] @ v # drop (Suc k) (h c)" for v
    using k by (simp add: list_update_append Cons_nth_drop_Suc [symmetric])
  from Suc.IH Suc.prems(1) k show ?case
    by (simp add: fun_upd_other fun_upd_same upd del: fun_upd_apply)
qed

lemma map_toNumber_rd: "map (\<lambda>i. toNumber (rd xs i)) [0..<length xs] = xs"
  by (auto simp: rd_def intro!: nth_equalityI)

lemma copyLoop_all:
  "c \<noteq> cur \<Longrightarrow> length (h c) = k \<Longrightarrow> length (h cur) = k \<Longrightarrow>
   foldl (\<lambda>h i. h(c := (h c)[i := toNumber (rd (h cur) i)])) h [0..<k] = h(c := h cur)"
proof -
  assume a: "c \<noteq> cur" "length (h c) = k" "length (h cur) = k"
  have "map (\<lambda>i. toNumber (rd (h cur) i)) [0..<k] = h cur"
    using map_toNumber_rd [of "h cur"] a(3) by simp
  with copyLoop_prefix [of c cur k h] a show ?thesis by simp
qed

lemma replicate_n_not_proto: "replicate (Suc i) CHR ''n'' \<notin> set objectPrototypeKeys"
  by (simp add: objectPrototypeKeys_def)

lemma manyNodes_ids:
  "map node_id (data_nodes (manyNodes n)) = map (\<lambda>i. replicate (Suc i) CHR ''n'') [0..<n]"
  by (simp add: manyNodes_def exNode_def comp_def)

lemma manyNodes_indexed: "p_nodes (indexed (manyNodes n)) = map (\<lambda>i. replicate (Suc i) CHR ''n'') [0..<n]"
proof -
  let ?ids = "map (\<lambda>i. replicate (Suc i) CHR ''n'') [0..<n]"
  have "filter (\<lambda>k. k \<notin> set objectPrototypeKeys) ?ids = ?ids"
    by (rule filter_True) (auto simp: replicate_n_not_proto simp del: replicate_Suc)
  moreover have "distinct (map (\<lambda>k. k) ?ids)"
    by (auto simp: distinct_map inj_on_def dest!: arg_cong [where f = length])
  ultimately show ?thesis
    by (simp add: nodes_indexed manyNodes_ids firstByKey_distinct del: replicate_Suc)
qed

lemma manyNodes_result:
  "preProcessData (manyNodes n) = Inr (projr (preProcessData (manyNodes n)))"
  "length (nodes (projr (preProcessData (manyNodes n)))) = n"
  "links (projr (preProcessData (manyNodes n))) = []"
proof -
  have "retained (manyNodes n) = []" by (simp add: retained_def manyNodes_def)
  then show "preProcessData (manyNodes n) = Inr (projr (preProcessData (manyNodes n)))"
    "length (nodes (projr (preProcessData (manyNodes n)))) = n"
    "links (projr (preProcessData (manyNodes n))) = []"
    by (simp_all add: preProcessData_char manyNodes_indexed)
qed

lemma manyNodes_init: "init (manyNodes n) cam = Inr (projr (init (manyNodes n) cam))"
proof -
  obtain r where "preProcessData (manyNodes n) = Inr r"
    using manyNodes_result(1) [of n] by blast
  then show ?thesis by (simp add: init_def)
qed

lemma tickedTwice_fields:
  assumes "t1 \<noteq> 0"
  shows "nodeCounts (tickedTwice n t1 t2) = n" "linkCounts (tickedTwice n t1 t2) = 0"
    "intervalTime (tickedTwice n t1 t2) = t2 - t1" "prevTickTime (tickedTwice n t1 t2) = t2"
    "layouting (tickedTwice n t1 t2)"
    "currentPositionStatus (tickedTwice n t1 t2) = Some 0"
    "targetPositionStatus (tickedTwice n t1 t2) = Some 1"
    "cachePositionStatus (tickedTwice n t1 t2) = Some 2"
    "heap (tickedTwice n t1 t2) 0 = replicate (2 * n) (Num 0)"
    "heap (tickedTwice n t1 t2) 1 = replicate (2 * n) (Num 10)"
    "heap (tickedTwice n t1 t2) (Suc 0) = replicate (2 * n) (Num 10)"
    "heap (tickedTwice n t1 t2) 2 = replicate (2 * n) (Num 0)"
    "links (processedData (tickedTwice n t1 t2)) = []"
    "camera (tickedTwice n t1 t2) = exCamera"
proof -
  obtain r where r: "preProcessData (manyNodes n) = Inr r" "length (nodes r) = n" "links r = []"
    using manyNodes_result [of n] by blast
  show "nodeCounts (tickedTwice n t1 t2) = n" "linkCounts (tickedTwice n t1 t2) = 0"
    "intervalTime (tickedTwice n t1 t2) = t2 - t1" "prevTickTime (tickedTwice n t1 t2) = t2"
    "layouting (tickedTwice n t1 t2)"
    "currentPositionStatus (tickedTwice n t1 t2) = Some 0"
    "targetPositionStatus (tickedTwice n t1 t2) = Some 1"
    "cachePositionStatus (tickedTwice n t1 t2) = Some 2"
    "heap (tickedTwice n t1 t2) 0 = replicate (2 * n) (Num 0)"
    "heap (tickedTwice n t1 t2) 1 = replicate (2 * n) (Num 10)"
    "heap (tickedTwice n t1 t2) (Suc 0) = replicate (2 * n) (Num 10)"
    "heap (tickedTwice n t1 t2) 2 = replicate (2 * n) (Num 0)"
    "links (processedData (tickedTwice n t1 t2)) = []"
    "camera (tickedTwice n t1 t2) = exCamera"
    using assms r
    by (simp_all add: tickedTwice_def init_def onTick_def alloc_def cacheCurrent_def startRender_def
        Let_def copyLoop_all)
qed

lemma blendLoop_prefix:
  "k \<le> length (h cur) \<Longrightarrow>
   foldl (\<lambda>h i. h(cur := (h cur)[i := blend (toNumber (rd (h tgt) i)) (toNumber (rd (h cache) i)) iv st]))
     h [0..<k]
   = h(cur := map (\<lambda>i. blend (toNumber (rd (h tgt) i)) (toNumber (rd (h cache) i)) iv st) [0..<k]
              @ drop k (h cur))"
proof (induction k)
  case 0
  then show ?case by simp
next
  case (Suc k)
  let ?g = "\<lambda>i. blend (toNumber (rd (h tgt) i)) (toNumber (rd (h cache) i)) iv st"
  let ?h' = "h(cur := map ?g [0..<k] @ drop k (h cur))"
  from Suc.prems have k: "k < length (h cur)" by simp
  have rd_same: "rd (?h' r) k = rd (h r) k" for r
    using k by (simp add: rd_def nth_append)
  have upd: "(map ?g [0..<k] @ drop k (h cur))[k := v] = map ?g [0..<k] @ v # drop (Suc k) (h cur)" for v
    using k by (simp add: list_update_append Cons_nth_drop_Suc [symmetric])
  from Suc.IH k show ?case
    by (simp add: rd_same del: fun_upd_apply) (simp add: upd)
qed

lemma blendLoop_cur:
  "blendLoop cur tgt cache iv st h cur =
     map (\<lambda>i. blend (toNumber (rd (h tgt) i)) (toNumber (rd (h cache) i)) iv st) [0..<length (h cur)]"
  by (simp add: blendLoop_def blendLoop_prefix)

lemma blendLoop_other: "r \<noteq> cur \<Longrightarrow> blendLoop cur tgt cache iv st h r = h r"
  by (simp add: blendLoop_def blendLoop_prefix)

lemma blend_zero_interval: "blend t c 0 0 = NaN"
  by (cases "jsSub t c") (simp_all add: blend_def)

lemma blendLoop_length: "length (blendLoop cur tgt cache iv st h cur) = length (h cur)"
  by (simp add: blendLoop_cur)

lemma tickedTwice_ready: "t1 \<noteq> 0 \<Longrightarrow> buffersReady (tickedTwice n t1 t2)"
  by (simp add: buffersReady_def linksReady_def tickedTwice_fields)

lemma linksReady_cong:
  "processedData g' = processedData g \<Longrightarrow> linkCounts g' = linkCounts g \<Longrightarrow> linksReady g' = linksReady g"
  by (simp add: linksReady_def)

lemma updatePosition_Some:
  "updatePosition (Some r) g =
     (if linksReady g
      then Inr (g\<lparr>nodesPositions :=
                  map (\<lambda>i. (toNumber (rd (heap g r) (i * 2)), toNumber (rd (heap g r) (i * 2 + 1))))
                    [0..<nodeCounts g]\<rparr>)
      else Inl TypeError)"
  by (simp add: updatePosition_def linksReady_def)


lemma updatePosition_camera: "updatePosition np g = Inr g' \<Longrightarrow> camera g' = camera g"
  by (auto simp: updatePosition_def split: option.splits if_splits)

lemma blendStep_camera: "blendStep st g = Inr g' \<Longrightarrow> camera g' = camera g"
  by (auto simp: blendStep_def split: option.splits if_splits dest: updatePosition_camera)

lemma snapStep_camera: "snapStep g = Inr g' \<Longrightarrow> camera g' = camera g"
  by (auto simp: snapStep_def split: option.splits if_splits dest: updatePosition_camera)

lemma interpolate_camera: "interpolate now g = Inr g' \<Longrightarrow> camera g' = camera g"
  by (auto simp: interpolate_def split: if_splits sum.splits
      dest!: updatePosition_camera blendStep_camera snapStep_camera)


lemma interpolate_large:
  "1000 < nodeCounts g \<Longrightarrow>
   interpolate now g =
     (case blendStep (now - prevTickTime g) g of
        Inl err \<Rightarrow> Inl err
      | Inr g1 \<Rightarrow> snapStep g1)"
  by (simp add: interpolate_def)




lemma interpolate_ready:
  assumes "buffersReady g" and "1000 < nodeCounts g" and "layouting g"
  shows "interpolate now g =
     (if now - prevTickTime g \<le> intervalTime g
      then (let cur = the (currentPositionStatus g);
                h = blendLoop cur (the (targetPositionStatus g)) (the (cachePositionStatus g))
                      (intervalTime g) (now - prevTickTime g) (heap g)
            in Inr (g\<lparr>heap := h,
                      nodesPositions :=
                        map (\<lambda>i. (toNumber (rd (h cur) (i * 2)), toNumber (rd (h cur) (i * 2 + 1))))
                          [0..<nodeCounts g]\<rparr>))
      else Inr g)"
proof -
  from assms(1) obtain cur tgt cache where
    b: "currentPositionStatus g = Some cur" "targetPositionStatus g = Some tgt"
       "cachePositionStatus g = Some cache" and l: "linksReady g"
    by (auto simp: buffersReady_def)
  have l': "linksReady (g\<lparr>heap := h\<rparr>)" for h
    using l by (simp add: linksReady_def)
  have empty: "length (heap g cur) = 0 \<Longrightarrow>
         blendLoop cur tgt cache (intervalTime g) (now - prevTickTime g) (heap g) = heap g"
    by (simp add: blendLoop_def)
  show ?thesis
    using assms(2,3) b l l' empty
    by (simp add: interpolate_large blendStep_def snapStep_def updatePosition_Some Let_def)
qed

lemma blendLoop_zero:
  "blendLoop cur tgt cache 0 0 h = h(cur := replicate (length (h cur)) NaN)"
proof
  fix r
  show "blendLoop cur tgt cache 0 0 h r = (h(cur := replicate (length (h cur)) NaN)) r"
    by (cases "r = cur") (simp_all add: blendLoop_cur blendLoop_other blend_zero_interval map_replicate_const)
qed

lemma rd_replicate_NaN: "toNumber (rd (replicate n NaN) i) = NaN"
  by (simp add: rd_def)

lemma interpolate_zero_both:
  assumes "buffersReady g" and "1000 < nodeCounts g" and "layouting g"
    and "intervalTime g = 0" and "now = prevTickTime g"
  shows "interpolate now g =
           Inr (g\<lparr>heap := (heap g)(the (currentPositionStatus g) :=
                            replicate (length (heap g (the (currentPositionStatus g)))) NaN),
                  nodesPositions := replicate (nodeCounts g) (NaN, NaN)\<rparr>)"
  using assms(4,5)
  by (simp add: interpolate_ready [OF assms(1-3)] Let_def blendLoop_zero rd_replicate_NaN map_replicate_const)

lemma interpolate_zero_later:
  assumes "buffersReady g" and "1000 < nodeCounts g" and "layouting g"
    and "intervalTime g = 0" and "prevTickTime g < now"
  shows "interpolate now g = Inr g"
  using assms(4,5) by (simp add: interpolate_ready [OF assms(1-3)])


subsection \<open>The rest of the frame\<close>

lemma highlight_samePositions:
  assumes "highlight ident g = Inr g'"
  shows "samePositions g g'" "camera g' = camera g"
  using assms
  by (auto simp: highlight_def addHighLight_def samePositions_def Let_def
      split: if_splits option.splits sum.splits)

lemma unhighlight_samePositions: "samePositions g (unhighlight g)" "camera (unhighlight g) = camera g"
  by (simp_all add: unhighlight_def samePositions_def Let_def)

lemma samePositions_refl: "samePositions g g"
  by (simp add: samePositions_def)

lemma updateHighLight_samePositions:
  assumes "updateHighLight hit g = Inr g'"
  shows "samePositions g g'" "camera g' = camera g"
proof -
  have "samePositions g g' \<and> camera g' = camera g"
  proof (cases hit)
    case NoHit
    with assms show ?thesis
      by (auto simp: updateHighLight_def unhighlight_samePositions samePositions_refl)
  next
    case (BasePoint i)
    with assms show ?thesis
      by (auto simp: updateHighLight_def Let_def samePositions_refl split: if_splits
          dest: highlight_samePositions)
  next
    case (Avatar ident)
    with assms show ?thesis
      by (auto simp: updateHighLight_def samePositions_refl split: if_splits
          dest: highlight_samePositions)
  next
    case Arrow
    with assms show ?thesis by (auto simp: updateHighLight_def samePositions_refl)
  qed
  then show "samePositions g g'" "camera g' = camera g" by simp_all
qed

text \<open>
  A frame that completes has carried out the interpolation step on the state with the camera
  clamped, has left the positions as that step left them, has drawn with the clamped camera, and
  leaves the camera that the controls make of the clamped one.
\<close>

lemma render_InrD:
  assumes "render hit ctl now g = Inr g'"
  shows "\<exists>g1. interpolate now (g\<lparr>rafId := False, camera := clampCamera (camera g)\<rparr>) = Inr g1 \<and>
              samePositions g1 g'"
    and "drawnWith g' = clampCamera (camera g)"
    and "camera g' = ctl (clampCamera (camera g))"
    and "rafId g'"
proof -
  let ?g = "g\<lparr>rafId := False, camera := clampCamera (camera g)\<rparr>"
  from assms obtain g1 where i: "interpolate now ?g = Inr g1"
    by (auto simp: render_def Let_def split: sum.splits)
  with assms obtain g2 where u: "updateHighLight hit g1 = Inr g2"
    by (auto simp: render_def Let_def split: sum.splits)
  define g3 where "g3 = (if \<not> layouting g2 \<and> cam_z (camera g2) < 300 then loadImage g2 else g2)"
  from assms i u have g': "g' = startRender (g3\<lparr>drawnWith := camera g3, camera := ctl (camera g3)\<rparr>)"
    by (simp add: render_def Let_def g3_def)
  have c3: "camera g3 = camera g2" and p3: "samePositions g2 g3"
    by (simp_all add: g3_def loadImage_def samePositions_def)
  have c: "camera g3 = clampCamera (camera g)"
    using c3 updateHighLight_samePositions(2) [OF u] interpolate_camera [OF i] by simp
  have "samePositions g1 g'"
    using updateHighLight_samePositions(1) [OF u] p3
    by (simp add: g' startRender_def samePositions_def)
  with i show "\<exists>g1. interpolate now ?g = Inr g1 \<and> samePositions g1 g'" by blast
  from c show "drawnWith g' = clampCamera (camera g)" "camera g' = ctl (clampCamera (camera g))"
    "rafId g'"
    by (simp_all add: g' startRender_def)
qed

text \<open>When the ray hits nothing, the frame completes as soon as its interpolation step does.\<close>

lemma render_NoHit:
  assumes "interpolate now (g\<lparr>rafId := False, camera := clampCamera (camera g)\<rparr>) = Inr g1"
  shows "render NoHit ctl now g = Inr (projr (render NoHit ctl now g))"
  using assms by (simp add: render_def Let_def updateHighLight_def)

lemma buffersReady_head:
  "buffersReady (g\<lparr>rafId := b, camera := c\<rparr>) = buffersReady g"
  by (simp add: buffersReady_def linksReady_def)

lemma exGraph_interpolate:
  "interpolate 25 (exGraph\<lparr>rafId := False, camera := c\<rparr>) =
     Inr (projr (interpolate 25 (exGraph\<lparr>rafId := False, camera := c\<rparr>)))"
  by (simp add: interpolate_def Let_def updatePosition_def exGraph_simps linkResolvable_def ex_defs)

lemma exGraph_render: "render NoHit exControls 25 exGraph = Inr (projr (render NoHit exControls 25 exGraph))"
  by (rule render_NoHit) (rule exGraph_interpolate)



text \<open>
  In exact arithmetic the blend of line 550 is the linear interpolation: it starts at the cached
  value, ends at the target and stays between the two.
\<close>

lemma blend_exact:
  assumes "0 < iv" and "0 \<le> st" and "st \<le> iv"
  shows "blend (Num t) (Num c) iv st = Num (c + (t - c) * (real_of_int st / real_of_int iv))"
    and "blend (Num t) (Num c) iv 0 = Num c"
    and "blend (Num t) (Num c) iv iv = Num t"
    and "min c t \<le> c + (t - c) * (real_of_int st / real_of_int iv)"
    and "c + (t - c) * (real_of_int st / real_of_int iv) \<le> max c t"
proof -
  define q where "q = real_of_int st / real_of_int iv"
  from assms have q: "0 \<le> q" "q \<le> 1" by (simp_all add: q_def)
  from assms show "blend (Num t) (Num c) iv st = Num (c + (t - c) * (real_of_int st / real_of_int iv))"
    "blend (Num t) (Num c) iv 0 = Num c" "blend (Num t) (Num c) iv iv = Num t"
    by (simp_all add: blend_def jsSub_def)
  have lo: "min c t \<le> c + (t - c) * q"
  proof (cases "c \<le> t")
    case True
    with q have "0 \<le> (t - c) * q" by (intro mult_nonneg_nonneg) simp_all
    then have "c \<le> c + (t - c) * q" by simp
    with True show ?thesis by (simp add: min_def)
  next
    case False
    with q have "(t - c) * 1 \<le> (t - c) * q" by (intro mult_left_mono_neg) simp_all
    then have "t \<le> c + (t - c) * q" by simp
    with False show ?thesis by (simp add: min_def)
  qed
  have hi: "c + (t - c) * q \<le> max c t"
  proof (cases "c \<le> t")
    case True
    with q have "(t - c) * q \<le> (t - c) * 1" by (intro mult_left_mono) simp_all
    then have "c + (t - c) * q \<le> t" by simp
    with True show ?thesis by (simp add: max_def)
  next
    case False
    with q have "(t - c) * q \<le> 0" by (intro mult_nonpos_nonneg) simp_all
    then have "c + (t - c) * q \<le> c" by simp
    with False show ?thesis by (simp add: max_def)
  qed
  from lo show "min c t \<le> c + (t - c) * (real_of_int st / real_of_int iv)" by (simp only: q_def)
  from hi show "c + (t - c) * (real_of_int st / real_of_int iv) \<le> max c t" by (simp only: q_def)
qed

subsection \<open>Rounding in the blend\<close>

lemma roundEven_int: "roundEven (real_of_int n) = n"
  by (simp add: roundEven_def)

lemma roundEven_near:
  assumes "\<bar>y - real_of_int n\<bar> < 1 / 2"
  shows "roundEven y = n"
proof (cases "real_of_int n \<le> y")
  case True
  with assms have "\<lfloor>y\<rfloor> = n" by (intro floor_unique) (simp_all add: abs_if split: if_splits)
  with assms True show ?thesis by (simp add: roundEven_def Let_def abs_if split: if_splits)
next
  case False
  with assms have "\<lfloor>y\<rfloor> = n - 1" by (intro floor_unique) (simp_all add: abs_if split: if_splits)
  with assms False show ?thesis by (simp add: roundEven_def Let_def abs_if split: if_splits)
qed

lemma powr_powi: "(2::real) powr real_of_int j = 2 powi j"
  by (rule powr_real_of_int') simp_all

lemma floor_log2:
  assumes "2 powi k \<le> \<bar>x\<bar>" and "\<bar>x\<bar> < 2 powi (k + 1)"
  shows "\<lfloor>log 2 \<bar>x :: real\<bar>\<rfloor> = k"
proof -
  have "0 < (2::real) powi k" by simp
  with assms(1) have pos: "0 < \<bar>x\<bar>" by linarith
  from assms have "2 powr real_of_int k \<le> \<bar>x\<bar> \<and> \<bar>x\<bar> < 2 powr real_of_int (k + 1)"
    by (simp only: powr_powi)
  then show ?thesis
    using floor_log_eq_powr_iff [where x = "\<bar>x\<bar>" and b = 2 and k = k] pos by simp
qed

lemma ulp_eval:
  assumes "2 powi k \<le> \<bar>x\<bar>" and "\<bar>x\<bar> < 2 powi (k + 1)"
  shows "ulp p emin x = 2 powi max (k - int p + 1) emin"
  by (simp add: ulp_def floor_log2 [OF assms])

lemma roundTo_near:
  assumes "2 powi k \<le> \<bar>x\<bar>" and "\<bar>x\<bar> < 2 powi (k + 1)" and "emin \<le> k - int p + 1"
    and "\<bar>x / 2 powi (k - int p + 1) - real_of_int n\<bar> < 1 / 2"
  shows "roundTo p emin x = real_of_int n * 2 powi (k - int p + 1)"
proof -
  have "0 < (2::real) powi k" by simp
  with assms(1) have "0 < \<bar>x\<bar>" by linarith
  then have "x \<noteq> 0" by simp
  moreover have "ulp p emin x = 2 powi (k - int p + 1)"
    using assms(3) by (simp add: ulp_eval [OF assms(1,2)] max_def)
  ultimately show ?thesis
    using roundEven_near [OF assms(4)] by (simp add: roundTo_def)
qed

text \<open>Rounding leaves a number of the format as it is.\<close>

lemma roundTo_exact:
  assumes "\<bar>m\<bar> < 2 ^ p" and "emin \<le> e"
  shows "roundTo p emin (real_of_int m * 2 powi e) = real_of_int m * 2 powi e"
proof (cases "m = 0")
  case True
  then show ?thesis by (simp add: roundTo_def)
next
  case False
  let ?x = "real_of_int m * 2 powi e"
  have x0: "?x \<noteq> 0" using False by simp
  define k where "k = \<lfloor>log 2 \<bar>?x\<bar>\<rfloor>"
  have pos: "0 < \<bar>?x\<bar>" using x0 by simp
  have "2 powr real_of_int k \<le> \<bar>?x\<bar>"
    using floor_log_eq_powr_iff [where x = "\<bar>?x\<bar>" and b = 2 and k = k] pos by (simp add: k_def)
  then have lo: "2 powi k \<le> \<bar>?x\<bar>" by (simp only: powr_powi)
  have "\<bar>?x\<bar> = real_of_int \<bar>m\<bar> * 2 powi e" by (simp add: abs_mult)
  also have "\<dots> < 2 ^ p * 2 powi e"
  proof -
    from assms(1) have "real_of_int \<bar>m\<bar> < real_of_int (2 ^ p)" by (simp only: of_int_less_iff)
    then show ?thesis by simp
  qed
  also have "\<dots> = 2 powi (int p + e)" by (simp add: power_int_add)
  finally have "2 powi k < (2::real) powi (int p + e)" using lo by linarith
  then have "k < int p + e"
    using power_int_increasing [of "int p + e" k "2::real"] by (cases "k < int p + e") simp_all
  then have le: "max (k - int p + 1) emin \<le> e" using assms(2) by simp
  define q where "q = max (k - int p + 1) emin"
  define d where "d = nat (e - q)"
  have e: "e = q + int d" using le by (simp add: d_def q_def)
  have u: "ulp p emin ?x = 2 powi q" by (simp add: ulp_def k_def q_def)
  have "?x / 2 powi q = real_of_int (m * 2 ^ d)"
    by (simp add: e power_int_add)
  then have "roundEven (?x / 2 powi q) = m * 2 ^ d" by (simp only: roundEven_int)
  then have "roundTo p emin ?x = real_of_int (m * 2 ^ d) * 2 powi q"
    using x0 by (simp only: roundTo_def u if_False)
  also have "\<dots> = ?x" by (simp add: e power_int_add)
  finally show ?thesis .
qed

lemma isFloat32_fround: "isFloat32 x \<Longrightarrow> fround x = x"
  by (auto simp: isFloat32_def fround_def intro!: roundTo_exact)

lemma isFloat32_binary64: "isFloat32 x \<Longrightarrow> binary64 x = x"
proof -
  assume "isFloat32 x"
  then obtain m e where me: "\<bar>m\<bar> < 2 ^ 24" "- 149 \<le> e" "x = real_of_int m * 2 powi e"
    by (auto simp: isFloat32_def)
  from me(1) have "\<bar>m\<bar> < 2 ^ 53" by simp
  with me(2) show ?thesis unfolding binary64_def me(3) by (intro roundTo_exact) simp_all
qed

lemma binary64_zero: "binary64 0 = 0"
  by (simp add: binary64_def roundTo_def)

lemma blend64_start:
  assumes "isFloat32 c"
  shows "blend64 t c iv 0 = c"
  using assms by (simp add: blend64_def binary64_zero isFloat32_binary64 isFloat32_fround)

lemma isFloat32_7: "isFloat32 7"
  unfolding isFloat32_def by (rule exI [of _ 7], rule exI [of _ 0]) simp

lemma isFloat32_0: "isFloat32 0"
  unfolding isFloat32_def by (rule exI [of _ 0], rule exI [of _ 0]) simp

lemma binary64_m7: "binary64 (- 7) = - 7"
  using roundTo_exact [of "- 7" 53 "- 1074" 0] by (simp add: binary64_def)

lemma binary64_quot: "binary64 (- 7 / 25) = - 5044031582654956 / 2 ^ 54"
  using roundTo_near [of "- 2" "- 7 / 25" "- 1074" 53 "- 5044031582654956"]
  by (simp add: binary64_def power_int_minus_divide)

lemma binary64_prod: "binary64 (- 5044031582654956 / 2 ^ 54 * 25) = - 7881299347898369 / 2 ^ 50"
  using roundTo_near [of 2 "- 5044031582654956 / 2 ^ 54 * 25" "- 1074" 53 "- 7881299347898369"]
  by (simp add: binary64_def power_int_minus_divide)

lemma binary64_sum: "binary64 (- 7881299347898369 / 2 ^ 50 + 7) = - (1 / 2 ^ 50)"
proof -
  have "- 7881299347898369 / 2 ^ 50 + 7 = real_of_int (- 1) * 2 powi (- 50)"
    by (simp add: power_int_minus_divide)
  moreover have "roundTo 53 (- 1074) (real_of_int (- 1) * 2 powi (- 50)) = real_of_int (- 1) * 2 powi (- 50)"
    by (rule roundTo_exact) simp_all
  ultimately show ?thesis by (simp add: binary64_def power_int_minus_divide)
qed

lemma fround_result: "fround (- (1 / 2 ^ 50)) = - (1 / 2 ^ 50)"
proof -
  have "roundTo 24 (- 149) (real_of_int (- 1) * 2 powi (- 50)) = real_of_int (- 1) * 2 powi (- 50)"
    by (rule roundTo_exact) simp_all
  then show ?thesis by (simp add: fround_def power_int_minus_divide)
qed

text \<open>
  Line 550 with target 0, cached 7 and \<^verbatim>\<open>stepTime\<close> equal to an interval of 25: the
  quotient \<open>- 7 / 25\<close> rounds down in magnitude, its product with 25 rounds to the binary64
  number next after \<open>- 7\<close>, and the sum with 7 is \<open>- (1 / 2 ^ 50)\<close>, which both formats hold.
\<close>

lemma blend64_overshoot: "blend64 0 7 25 25 = - (1 / 2 ^ 50)"
proof -
  have a: "binary64 (0 - 7) = - 7"
    using binary64_m7 by simp
  have b: "binary64 (- 7 / real_of_int 25) = - 5044031582654956 / 2 ^ 54"
    using binary64_quot by simp
  have c: "binary64 (- 5044031582654956 / 2 ^ 54 * real_of_int 25) = - 7881299347898369 / 2 ^ 50"
    using binary64_prod by simp
  show ?thesis
    by (simp only: blend64_def a b c binary64_sum fround_result)
qed

text \<open>Rounding moves a number by at most half a unit in the last place.\<close>

lemma roundEven_error: "\<bar>real_of_int (roundEven y) - y\<bar> \<le> 1 / 2"
proof -
  define f where "f = \<lfloor>y\<rfloor>"
  have b: "real_of_int f \<le> y" "y < real_of_int f + 1" unfolding f_def by linarith+
  consider "y - real_of_int f < 1 / 2" | "1 / 2 < y - real_of_int f" | "y - real_of_int f = 1 / 2"
    by linarith
  then show ?thesis
  proof cases
    case 1
    then have "roundEven y = f" by (simp add: roundEven_def Let_def f_def)
    with 1 b show ?thesis by simp
  next
    case 2
    then have "roundEven y = f + 1" by (simp add: roundEven_def Let_def f_def)
    with 2 b show ?thesis by simp
  next
    case 3
    then have "roundEven y = f \<or> roundEven y = f + 1" by (simp add: roundEven_def Let_def f_def)
    with 3 b show ?thesis by auto
  qed
qed

lemma ulp_pos: "0 < ulp p emin x"
  by (simp add: ulp_def)

lemma ulp_bound:
  assumes "x \<noteq> 0"
  shows "ulp p emin x / 2 \<le> \<bar>x\<bar> / 2 ^ p + 2 powi (emin - 1)"
proof -
  define k where "k = \<lfloor>log 2 \<bar>x\<bar>\<rfloor>"
  have pos: "0 < \<bar>x\<bar>" using assms by simp
  have "2 powr real_of_int k \<le> \<bar>x\<bar>"
    using floor_log_eq_powr_iff [where x = "\<bar>x\<bar>" and b = 2 and k = k] pos by (simp add: k_def)
  then have lo: "2 powi k \<le> \<bar>x\<bar>" by (simp only: powr_powi)
  show ?thesis
  proof (cases "k - int p + 1 \<le> emin")
    case True
    then have "ulp p emin x = 2 powi emin" by (simp add: ulp_def k_def max_def)
    also have "\<dots> = 2 * 2 powi (emin - 1)"
      using power_int_add [of "2::real" 1 "emin - 1"] by simp
    finally have "ulp p emin x / 2 = 2 powi (emin - 1)" by simp
    moreover have "0 \<le> \<bar>x\<bar> / 2 ^ p" by simp
    ultimately show ?thesis by linarith
  next
    case False
    then have "ulp p emin x = 2 powi (k + (1 - int p))" by (simp add: ulp_def k_def max_def algebra_simps)
    also have "\<dots> = 2 powi k * 2 powi (1 - int p)" by (simp add: power_int_add)
    also have "2 powi (1 - int p) = (2::real) / 2 ^ p"
      by (simp add: power_int_diff)
    finally have "ulp p emin x / 2 = 2 powi k / 2 ^ p" by simp
    also have "\<dots> \<le> \<bar>x\<bar> / 2 ^ p" using lo by (simp add: divide_right_mono)
    finally have "ulp p emin x / 2 \<le> \<bar>x\<bar> / 2 ^ p" .
    moreover have "0 \<le> (2::real) powi (emin - 1)" by simp
    ultimately show ?thesis by linarith
  qed
qed

lemma roundTo_error: "\<bar>roundTo p emin x - x\<bar> \<le> \<bar>x\<bar> / 2 ^ p + 2 powi (emin - 1)"
proof (cases "x = 0")
  case True
  then show ?thesis by (simp add: roundTo_def)
next
  case False
  let ?U = "ulp p emin x"
  have U: "0 < ?U" by (rule ulp_pos)
  have "roundTo p emin x - x = (real_of_int (roundEven (x / ?U)) - x / ?U) * ?U"
    using False U by (simp add: roundTo_def algebra_simps)
  then have "\<bar>roundTo p emin x - x\<bar> = \<bar>real_of_int (roundEven (x / ?U)) - x / ?U\<bar> * ?U"
    using U by (simp add: abs_mult)
  also have "\<dots> \<le> 1 / 2 * ?U"
    using roundEven_error [of "x / ?U"] U by (intro mult_right_mono) simp_all
  also have "\<dots> = ?U / 2" by simp
  also have "\<dots> \<le> \<bar>x\<bar> / 2 ^ p + 2 powi (emin - 1)" by (rule ulp_bound [OF False])
  finally show ?thesis .
qed

lemma binary64_error: "\<bar>binary64 x - x\<bar> \<le> \<bar>x\<bar> / 2 ^ 53 + 1 / 2 ^ 1075"
  using roundTo_error [of 53 "- 1074" x] by (simp add: binary64_def power_int_minus_divide)

lemma fround_error: "\<bar>fround x - x\<bar> \<le> \<bar>x\<bar> / 2 ^ 24 + 1 / 2 ^ 150"
  using roundTo_error [of 24 "- 149" x] by (simp add: fround_def power_int_minus_divide)


text \<open>
  The coordinate that line 550 stores is within a rounding error of the exact blend: the four
  binary64 operations contribute a relative error of some \<open>15 / 2 ^ 53\<close>, the store one of
  \<open>1 / 2 ^ 24\<close>, and underflow an absolute error below \<open>1 / 2 ^ 149\<close>.
\<close>

lemma scaled_le:
  fixes z I s :: real
  assumes "0 < I" and "0 \<le> s" and "s \<le> I"
  shows "\<bar>z / I * s\<bar> \<le> \<bar>z\<bar>"
proof -
  have "\<bar>z / I * s\<bar> = \<bar>z\<bar> * (s / I)" using assms by (simp add: abs_mult)
  also have "\<dots> \<le> \<bar>z\<bar> * 1" using assms by (intro mult_left_mono) simp_all
  finally show ?thesis by simp
qed

lemma blend64_error:
  assumes "0 < iv" and "0 \<le> st" and "st \<le> iv" and "iv \<le> 2 ^ 53"
  shows "\<bar>blend64 t c iv st - (c + (t - c) * (real_of_int st / real_of_int iv))\<bar>
           \<le> (\<bar>t\<bar> + \<bar>c\<bar>) / 2 ^ 23 + 1 / 2 ^ 149"
proof -
  define I where "I = real_of_int iv"
  define s where "s = real_of_int st"
  define M where "M = \<bar>t\<bar> + \<bar>c\<bar>"
  define x where "x = t - c"
  define d where "d = binary64 x"
  define q where "q = binary64 (d / I)"
  define qs where "qs = q * s"
  define dl where "dl = d / I * s"
  define xl where "xl = x / I * s"
  define m where "m = binary64 qs"
  define a where "a = binary64 (m + c)"
  define r where "r = fround a"
  define E where "E = c + xl"
  define u :: real where "u = 1 / 2 ^ 53"
  define e :: real where "e = 1 / 2 ^ 1075"
  define K :: real where "K = 2 ^ 53"
  define uM where "uM = u * M"
  define eK where "eK = e * K"
  have I: "0 < I" "0 \<le> s" "s \<le> I" "s \<le> K"
    using assms by (simp_all add: I_def s_def K_def)
  have M: "0 \<le> M" "\<bar>x\<bar> \<le> M" by (simp_all add: M_def x_def)
  have u: "0 \<le> u" "u \<le> 1" "0 \<le> e" "0 \<le> eK" by (simp_all add: u_def e_def eK_def K_def)
  have uM: "0 \<le> uM" "uM \<le> M"
    using M(1) u(1) mult_right_mono [OF u(2) M(1)] by (simp_all add: uM_def)
  have scale: "u * y \<le> u * z" if "y \<le> z" for y z
    using that u(1) by (rule mult_left_mono)
  have small: "u * y \<le> y" if "0 \<le> y" for y
    using mult_right_mono [OF u(2) that] by simp
  have r: "blend64 t c iv st = r"
    by (simp add: blend64_def r_def a_def m_def qs_def q_def d_def x_def I_def s_def)
  have E: "c + (t - c) * (real_of_int st / real_of_int iv) = E"
    by (simp add: E_def xl_def x_def I_def s_def)
  have h1: "\<bar>d - x\<bar> \<le> u * \<bar>x\<bar> + e"
    using binary64_error [of x] by (simp add: d_def u_def e_def)
  have h2: "\<bar>q - d / I\<bar> \<le> u * \<bar>d / I\<bar> + e"
    using binary64_error [of "d / I"] by (simp add: q_def u_def e_def)
  have h3: "\<bar>m - qs\<bar> \<le> u * \<bar>qs\<bar> + e"
    using binary64_error [of qs] by (simp add: m_def u_def e_def)
  have h4: "\<bar>a - (m + c)\<bar> \<le> u * \<bar>m + c\<bar> + e"
    using binary64_error [of "m + c"] by (simp add: a_def u_def e_def)
  have h5: "\<bar>r - a\<bar> \<le> \<bar>a\<bar> / 2 ^ 24 + 1 / 2 ^ 150"
    using fround_error [of a] by (simp add: r_def)
  from h1 scale [OF M(2)] have a1: "\<bar>d - x\<bar> \<le> uM + e" by (simp add: uM_def)
  with M(2) uM(2) have d: "\<bar>d\<bar> \<le> 2 * M + e" by linarith
  have n1: "\<bar>dl\<bar> \<le> \<bar>d\<bar>" unfolding dl_def by (rule scaled_le [OF I(1-3)])
  have "qs - dl = (q - d / I) * s" by (simp add: qs_def dl_def left_diff_distrib)
  then have "\<bar>qs - dl\<bar> = \<bar>q - d / I\<bar> * s" using I(2) by (simp add: abs_mult)
  also have "\<dots> \<le> (u * \<bar>d / I\<bar> + e) * s" using h2 I(2) by (rule mult_right_mono)
  also have "\<dots> = u * \<bar>dl\<bar> + e * s"
    using I(2) by (simp add: dl_def abs_mult algebra_simps)
  finally have "\<bar>qs - dl\<bar> \<le> u * \<bar>dl\<bar> + e * s" .
  moreover have "e * s \<le> eK" unfolding eK_def using I(4) u(3) by (rule mult_left_mono)
  moreover have "u * \<bar>dl\<bar> \<le> u * (2 * M + e)" using n1 d by (intro scale) linarith
  moreover have "u * (2 * M + e) = 2 * uM + u * e" by (simp add: uM_def algebra_simps)
  moreover have "u * e \<le> e" using u(3) by (rule small)
  ultimately have a3: "\<bar>qs - dl\<bar> \<le> 2 * uM + e + eK" by linarith
  with n1 d uM(2) have x3: "\<bar>qs\<bar> \<le> 4 * M + 2 * e + eK" by linarith
  have "u * \<bar>qs\<bar> \<le> u * (4 * M + 2 * e + eK)" using x3 by (rule scale)
  moreover have "u * (4 * M + 2 * e + eK) = 4 * uM + u * (2 * e + eK)" by (simp add: uM_def algebra_simps)
  moreover have "u * (2 * e + eK) \<le> 2 * e + eK" using u(3,4) by (intro small) linarith
  ultimately have a4: "\<bar>m - qs\<bar> \<le> 4 * uM + 3 * e + eK" using h3 by linarith
  have "dl - xl = (d - x) / I * s" by (simp add: dl_def xl_def diff_divide_distrib left_diff_distrib)
  then have "\<bar>dl - xl\<bar> \<le> \<bar>d - x\<bar>" by (simp only: scaled_le [OF I(1-3)])
  with a1 have a5: "\<bar>dl - xl\<bar> \<le> uM + e" by linarith
  from a4 a3 a5 have a6: "\<bar>m - xl\<bar> \<le> 7 * uM + 5 * e + 2 * eK" by linarith
  have Eb: "\<bar>E\<bar> \<le> M"
  proof -
    define l where "l = s / I"
    have lam: "0 \<le> l" "0 \<le> 1 - l" using I by (simp_all add: l_def)
    have "E = (1 - l) * c + l * t"
      by (simp add: E_def xl_def x_def l_def algebra_simps diff_divide_distrib)
    also have "\<bar>\<dots>\<bar> \<le> \<bar>(1 - l) * c\<bar> + \<bar>l * t\<bar>" by (rule abs_triangle_ineq)
    also have "\<dots> = (1 - l) * \<bar>c\<bar> + l * \<bar>t\<bar>" using lam by (simp only: abs_mult abs_of_nonneg)
    also have "\<dots> \<le> (1 - l) * M + l * M"
      using lam by (intro add_mono mult_left_mono) (simp_all add: M_def)
    also have "\<dots> = M" by (simp add: algebra_simps)
    finally show ?thesis .
  qed
  have "m + c - E = m - xl" by (simp add: E_def)
  with a6 have mc: "\<bar>m + c - E\<bar> \<le> 7 * uM + 5 * e + 2 * eK" by simp
  from mc Eb uM(2) have x4: "\<bar>m + c\<bar> \<le> 8 * M + 5 * e + 2 * eK" by linarith
  have "u * \<bar>m + c\<bar> \<le> u * (8 * M + 5 * e + 2 * eK)" using x4 by (rule scale)
  moreover have "u * (8 * M + 5 * e + 2 * eK) = 8 * uM + u * (5 * e + 2 * eK)"
    by (simp add: uM_def algebra_simps)
  moreover have "u * (5 * e + 2 * eK) \<le> 5 * e + 2 * eK" using u(3,4) by (intro small) linarith
  ultimately have "\<bar>a - (m + c)\<bar> \<le> 8 * uM + 6 * e + 2 * eK" using h4 by linarith
  with mc have a7: "\<bar>a - E\<bar> \<le> 15 * uM + 11 * e + 4 * eK" by linarith
  from a7 Eb have "\<bar>a\<bar> \<le> M + 15 * uM + 11 * e + 4 * eK" by linarith
  then have "\<bar>a\<bar> / 2 ^ 24 \<le> (M + 15 * uM + 11 * e + 4 * eK) / 2 ^ 24" by (rule divide_right_mono) simp
  with h5 a7 have "\<bar>r - E\<bar> \<le> (M + 15 * uM + 11 * e + 4 * eK) / 2 ^ 24 + 1 / 2 ^ 150
                        + (15 * uM + 11 * e + 4 * eK)"
    by linarith
  also have "\<dots> \<le> M / 2 ^ 23 + 1 / 2 ^ 149"
  proof -
    define C where "C = 11 * e + 4 * eK"
    have C: "C \<le> 1 / 2 ^ 1000" by (simp add: C_def eK_def e_def K_def)
    have p: "(1::real) / 2 ^ 1000 \<le> 1 / 2 ^ 151" by simp
    have "uM = M / 2 ^ 53" by (simp add: uM_def u_def)
    then have "15 * uM \<le> M / 2 ^ 49" using M(1) by simp
    moreover have "M / 2 ^ 49 / 2 ^ 24 \<le> M / 2 ^ 49" using M(1) by (simp add: field_simps)
    moreover have "M / 2 ^ 49 \<le> M / 2 ^ 25" using M(1) by (simp add: field_simps)
    moreover have "M / 2 ^ 24 + (M / 2 ^ 25 + M / 2 ^ 25) = M / 2 ^ 23" by simp
    moreover have "(M + 15 * uM + 11 * e + 4 * eK) / 2 ^ 24 = M / 2 ^ 24 + 15 * uM / 2 ^ 24 + C / 2 ^ 24"
      by (simp add: C_def add_divide_distrib)
    moreover have "15 * uM / 2 ^ 24 \<le> M / 2 ^ 49 / 2 ^ 24"
      using \<open>15 * uM \<le> M / 2 ^ 49\<close> by (rule divide_right_mono) simp
    moreover have "C / 2 ^ 24 \<le> 1 / 2 ^ 151"
    proof -
      have "C / 2 ^ 24 \<le> 1 / 2 ^ 1000 / 2 ^ 24" using C by (rule divide_right_mono) simp
      also have "\<dots> \<le> 1 / 2 ^ 151" by simp
      finally show ?thesis .
    qed
    moreover have "1 / 2 ^ 150 + ((1::real) / 2 ^ 151 + 1 / 2 ^ 151) = 1 / 2 ^ 149" by simp
    moreover have "15 * uM + 11 * e + 4 * eK = 15 * uM + C" by (simp add: C_def)
    ultimately show ?thesis using C p by linarith
  qed
  finally have "\<bar>r - E\<bar> \<le> M / 2 ^ 23 + 1 / 2 ^ 149" .
  then show ?thesis unfolding r E M_def .
qed

text \<open>
  C4, amended. For finite cached and target coordinates of a \<^verbatim>\<open>Float32Array\<close>, an interval
  greater than zero (and not above \<open>2 ^ 53\<close>, as every difference of clock values is) and
  \<^verbatim>\<open>stepTime\<close> from 0 to the interval: the coordinate that line 550 stores at \<^verbatim>\<open>stepTime\<close> 0
  is the cached one exactly; the exact blend, the value of the formula before rounding, lies
  between cached and target and is the target at \<^verbatim>\<open>stepTime\<close> equal to the interval; and
  the coordinate stored differs from the exact blend, and so from the target at \<^verbatim>\<open>stepTime\<close>
  equal to the interval, by at most \<open>(\<bar>target\<bar> + \<bar>cached\<bar>) / 2 ^ 23 + 1 / 2 ^ 149\<close>.
\<close>

theorem blend64_convergence:
  assumes "isFloat32 t" and "isFloat32 c"
    and "0 < interval" and "interval \<le> 2 ^ 53" and "0 \<le> stepTime" and "stepTime \<le> interval"
  shows "blend64 t c interval 0 = c \<and>
         (\<exists>x. blend (Num t) (Num c) interval stepTime = Num x \<and> min c t \<le> x \<and> x \<le> max c t \<and>
              \<bar>blend64 t c interval stepTime - x\<bar> \<le> (\<bar>t\<bar> + \<bar>c\<bar>) / 2 ^ 23 + 1 / 2 ^ 149) \<and>
         blend (Num t) (Num c) interval interval = Num t \<and>
         \<bar>blend64 t c interval interval - t\<bar> \<le> (\<bar>t\<bar> + \<bar>c\<bar>) / 2 ^ 23 + 1 / 2 ^ 149"
proof -
  note e = blend_exact [OF assms(3,5,6), where t = t and c = c]
  from e(1,4,5) blend64_error [OF assms(3,5,6,4), of t c]
  have "\<exists>x. blend (Num t) (Num c) interval stepTime = Num x \<and> min c t \<le> x \<and> x \<le> max c t \<and>
              \<bar>blend64 t c interval stepTime - x\<bar> \<le> (\<bar>t\<bar> + \<bar>c\<bar>) / 2 ^ 23 + 1 / 2 ^ 149"
    by blast
  moreover have "\<bar>blend64 t c interval interval - t\<bar> \<le> (\<bar>t\<bar> + \<bar>c\<bar>) / 2 ^ 23 + 1 / 2 ^ 149"
    using blend64_error [of interval interval t c] assms(3,4) by simp
  ultimately show ?thesis using blend64_start [OF assms(2)] e(3) by simp
qed

theorem blend64_convergence_witness:
  "isFloat32 0 \<and> isFloat32 7 \<and> blend64 0 7 25 0 = 7 \<and> blend (Num 0) (Num 7) 25 25 = Num 0 \<and>
   \<bar>blend64 0 7 25 25 - 0\<bar> \<le> (\<bar>0\<bar> + \<bar>7\<bar>) / 2 ^ 23 + 1 / 2 ^ 149"
  using blend64_convergence [OF isFloat32_0 isFloat32_7, of 25 25] isFloat32_0 isFloat32_7 by simp

text \<open>
  The claim as stated makes the blended coordinate the target exactly at \<^verbatim>\<open>stepTime\<close> equal
  to the interval, and never past the target. From cached 7 to target 0 over an interval of 25,
  the coordinate stored at \<^verbatim>\<open>stepTime\<close> 25 is \<open>- (1 / 2 ^ 50)\<close>: not the target, and past it.
\<close>

theorem blend64_convergence_counterexample:
  "isFloat32 0 \<and> isFloat32 7 \<and> blend64 0 7 25 25 = - (1 / 2 ^ 50) \<and> blend64 0 7 25 25 < min 7 0"
  by (simp add: isFloat32_0 isFloat32_7 blend64_overshoot)

subsection \<open>Regimes of the frame\<close>




text \<open>What the interpolation step does at a zero interval.\<close>

lemma interpolate_zero_interval:
  assumes "buffersReady g" and "1000 < nodeCounts g" and "layouting g" and "intervalTime g = 0"
  shows "\<exists>g'. interpolate now g = Inr g' \<and>
           currentPositionStatus g' = currentPositionStatus g \<and>
           targetPositionStatus g' = targetPositionStatus g \<and>
           (prevTickTime g < now \<longrightarrow> heap g' = heap g \<and> nodesPositions g' = nodesPositions g) \<and>
           (now = prevTickTime g \<longrightarrow>
              (\<exists>cur. currentPositionStatus g = Some cur \<and>
                     heap g' cur = replicate (length (heap g cur)) NaN) \<and>
              nodesPositions g' = replicate (nodeCounts g) (NaN, NaN))"
proof -
  from assms(1) obtain cur where cur: "currentPositionStatus g = Some cur"
    by (auto simp: buffersReady_def)
  consider "prevTickTime g < now" | "now = prevTickTime g" | "now < prevTickTime g" by linarith
  then show ?thesis
  proof cases
    case 1
    with interpolate_zero_later [OF assms 1] show ?thesis by simp
  next
    case 2
    with interpolate_zero_both [OF assms 2] cur show ?thesis by simp
  next
    case 3
    with assms(4) have "now - prevTickTime g \<le> intervalTime g" by simp
    with 3 show ?thesis by (simp add: interpolate_ready [OF assms(1-3)] Let_def)
  qed
qed

text \<open>
  C5, amended. No statement of the frame guards a zero interval. With more than 1000 nodes, the
  buffers present, the layout running and \<^verbatim>\<open>intervalTime\<close> zero, the interpolation step
  raises nothing, so a frame in which the pointer hits nothing completes, and no frame that
  completes assigns the target to the rendered buffer; a frame later than the last tick skips
  the blend, because \<^verbatim>\<open>stepTime <= intervalTime\<close> fails, and changes no position; a frame at
  the clock value of the last tick carries out the blend with divisor zero, which makes every
  entry of the rendered buffer and every coordinate handed to the renderer \<^verbatim>\<open>NaN\<close>.
\<close>

theorem render_zero_interval:
  assumes "buffersReady g" and "1000 < nodeCounts g" and "layouting g" and "intervalTime g = 0"
  shows "(\<exists>g'. render NoHit controlsUpdate now g = Inr g') \<and>
         (\<forall>hit g'. render hit controlsUpdate now g = Inr g' \<longrightarrow>
            currentPositionStatus g' = currentPositionStatus g \<and>
            targetPositionStatus g' = targetPositionStatus g \<and>
            (prevTickTime g < now \<longrightarrow> heap g' = heap g \<and> nodesPositions g' = nodesPositions g) \<and>
            (now = prevTickTime g \<longrightarrow>
               (\<exists>cur. currentPositionStatus g = Some cur \<and>
                      heap g' cur = replicate (length (heap g cur)) NaN) \<and>
               nodesPositions g' = replicate (nodeCounts g) (NaN, NaN)))"
proof -
  let ?g = "g\<lparr>rafId := False, camera := clampCamera (camera g)\<rparr>"
  have h: "buffersReady ?g" "1000 < nodeCounts ?g" "layouting ?g" "intervalTime ?g = 0"
    using assms by (simp_all add: buffersReady_head)
  from interpolate_zero_interval [OF h, of now] obtain g1 where
    i: "interpolate now ?g = Inr g1" and
    q: "currentPositionStatus g1 = currentPositionStatus g"
       "targetPositionStatus g1 = targetPositionStatus g"
       "prevTickTime g < now \<longrightarrow> heap g1 = heap g \<and> nodesPositions g1 = nodesPositions g"
       "now = prevTickTime g \<longrightarrow>
              (\<exists>cur. currentPositionStatus g = Some cur \<and>
                     heap g1 cur = replicate (length (heap g cur)) NaN) \<and>
              nodesPositions g1 = replicate (nodeCounts g) (NaN, NaN)"
    by auto
  have ex: "\<exists>g'. render NoHit controlsUpdate now g = Inr g'"
    using render_NoHit [OF i] by blast
  have all: "currentPositionStatus g' = currentPositionStatus g \<and>
            targetPositionStatus g' = targetPositionStatus g \<and>
            (prevTickTime g < now \<longrightarrow> heap g' = heap g \<and> nodesPositions g' = nodesPositions g) \<and>
            (now = prevTickTime g \<longrightarrow>
               (\<exists>cur. currentPositionStatus g = Some cur \<and>
                      heap g' cur = replicate (length (heap g cur)) NaN) \<and>
               nodesPositions g' = replicate (nodeCounts g) (NaN, NaN))"
    if r: "render hit controlsUpdate now g = Inr g'" for hit g'
  proof -
    from render_InrD(1) [OF r] i have "samePositions g1 g'" by simp
    then have e: "currentPositionStatus g' = currentPositionStatus g1"
      "targetPositionStatus g' = targetPositionStatus g1" "heap g' = heap g1"
      "nodesPositions g' = nodesPositions g1"
      by (simp_all add: samePositions_def)
    from q show ?thesis by (simp add: e)
  qed
  from ex all show ?thesis by blast
qed

theorem render_zero_interval_witness:
  "buffersReady (tickedTwice 1001 7 7) \<and> nodeCounts (tickedTwice 1001 7 7) = 1001 \<and>
   layouting (tickedTwice 1001 7 7) \<and> intervalTime (tickedTwice 1001 7 7) = 0 \<and>
   render NoHit exControls 7 (tickedTwice 1001 7 7) =
     Inr (projr (render NoHit exControls 7 (tickedTwice 1001 7 7))) \<and>
   nodesPositions (projr (render NoHit exControls 7 (tickedTwice 1001 7 7))) = replicate 1001 (NaN, NaN)"
proof -
  let ?g = "tickedTwice 1001 7 7"
  have h: "buffersReady ?g" "1000 < nodeCounts ?g" "layouting ?g" "intervalTime ?g = 0"
    by (simp_all add: tickedTwice_ready tickedTwice_fields)
  note z = render_zero_interval [OF h, of exControls 7]
  from z obtain g' where "render NoHit exControls 7 ?g = Inr g'" by blast
  then have r: "render NoHit exControls 7 ?g = Inr (projr (render NoHit exControls 7 ?g))" by simp
  with z have "nodesPositions (projr (render NoHit exControls 7 ?g)) = replicate (nodeCounts ?g) (NaN, NaN)"
    by (simp add: tickedTwice_fields)
  with h r show ?thesis by (simp add: tickedTwice_fields)
qed

text \<open>
  The claim as stated promises a snap to the target. With 1001 nodes, both ticks at clock value
  7 and a frame at 7, the rendered buffer (array 0) holds \<^verbatim>\<open>NaN\<close> throughout while the
  target (array 1) holds 10.
\<close>

theorem render_zero_interval_counterexample:
  "nodeCounts (tickedTwice 1001 7 7) = 1001 \<and> intervalTime (tickedTwice 1001 7 7) = 0 \<and>
   render NoHit exControls 7 (tickedTwice 1001 7 7) =
     Inr (projr (render NoHit exControls 7 (tickedTwice 1001 7 7))) \<and>
   currentPositionStatus (projr (render NoHit exControls 7 (tickedTwice 1001 7 7))) = Some 0 \<and>
   targetPositionStatus (projr (render NoHit exControls 7 (tickedTwice 1001 7 7))) = Some 1 \<and>
   heap (projr (render NoHit exControls 7 (tickedTwice 1001 7 7))) 0 = replicate 2002 NaN \<and>
   heap (projr (render NoHit exControls 7 (tickedTwice 1001 7 7))) 1 = replicate 2002 (Num 10)"
proof -
  let ?g = "tickedTwice 1001 7 7"
  let ?h = "?g\<lparr>rafId := False, camera := clampCamera (camera ?g)\<rparr>"
  have h: "buffersReady ?h" "1000 < nodeCounts ?h" "layouting ?h" "intervalTime ?h = 0"
    "7 = prevTickTime ?h"
    by (simp_all add: buffersReady_head tickedTwice_ready tickedTwice_fields)
  note i = interpolate_zero_both [OF h]
  have r: "render NoHit exControls 7 ?g = Inr (projr (render NoHit exControls 7 ?g))"
    by (rule render_NoHit) (rule i)
  from render_InrD(1) [OF r] i
  have "samePositions
          (?h\<lparr>heap := (heap ?h)(the (currentPositionStatus ?h) :=
                       replicate (length (heap ?h (the (currentPositionStatus ?h)))) NaN),
              nodesPositions := replicate (nodeCounts ?h) (NaN, NaN)\<rparr>)
          (projr (render NoHit exControls 7 ?g))"
    by simp
  then have "currentPositionStatus (projr (render NoHit exControls 7 ?g)) = Some 0"
    "targetPositionStatus (projr (render NoHit exControls 7 ?g)) = Some 1"
    "heap (projr (render NoHit exControls 7 ?g)) = (heap ?g)(0 := replicate 2002 NaN)"
    by (simp_all add: samePositions_def tickedTwice_fields)
  with r show ?thesis by (simp add: tickedTwice_fields)
qed

subsection \<open>The camera clamp\<close>

lemma exControls_lowers: "0 < z \<Longrightarrow> z * cos (1 / 10 ^ 6) < (z::real)"
proof -
  have "cos (2 * (1 / (2 * 10 ^ 6))) < (1::real)"
    by (rule cos_double_less_one) simp_all
  then have "cos (1 / 10 ^ 6) < (1::real)" by simp
  then show "0 < z \<Longrightarrow> z * cos (1 / 10 ^ 6) < z" by simp
qed

lemma exControls_tilts: "0 < z \<Longrightarrow> 0 < z * sin (1 / 10 ^ 6 :: real)"
proof -
  have "0 < sin (1 / 10 ^ 6 :: real)" by (rule sin_gt_zero_02) simp_all
  then show "0 < z \<Longrightarrow> 0 < z * sin (1 / 10 ^ 6 :: real)" by simp
qed

lemma exZoomedGraph_render:
  "render NoHit exControls 25 exZoomedGraph = Inr (projr (render NoHit exControls 25 exZoomedGraph))"
proof (rule render_NoHit)
  let ?c = "clampCamera (camera exZoomedGraph)"
  have e: "exZoomedGraph\<lparr>rafId := False, camera := ?c\<rparr> = exGraph\<lparr>rafId := False, camera := ?c\<rparr>"
    by (simp add: exZoomedGraph_def)
  show "interpolate 25 (exZoomedGraph\<lparr>rafId := False, camera := ?c\<rparr>) =
          Inr (projr (interpolate 25 (exZoomedGraph\<lparr>rafId := False, camera := ?c\<rparr>)))"
    unfolding e by (rule exGraph_interpolate)
qed

text \<open>
  C10, amended. Every frame that completes has drawn with a camera whose z lies in the closed
  range from 75 to 16000: before anything else, \<^verbatim>\<open>render\<close> has set a z below 75 to 75 and a
  z above 16000 to 16000, has kept a z within the range, and has left x and y untouched. The
  camera that the frame leaves behind is what \<^verbatim>\<open>controls.update()\<close>, called after the draw,
  makes of that clamped camera.
\<close>

theorem render_draws_clamped:
  assumes "render hit controlsUpdate now g = Inr g'"
  shows "75 \<le> cam_z (drawnWith g') \<and> cam_z (drawnWith g') \<le> 16000 \<and>
         (cam_z (camera g) < 75 \<longrightarrow> cam_z (drawnWith g') = 75) \<and>
         (16000 < cam_z (camera g) \<longrightarrow> cam_z (drawnWith g') = 16000) \<and>
         (75 \<le> cam_z (camera g) \<and> cam_z (camera g) \<le> 16000 \<longrightarrow>
            cam_z (drawnWith g') = cam_z (camera g)) \<and>
         cam_x (drawnWith g') = cam_x (camera g) \<and> cam_y (drawnWith g') = cam_y (camera g) \<and>
         camera g' = controlsUpdate (drawnWith g')"
  using render_InrD(2,3) [OF assms] by (simp add: clampCamera_def Let_def)

theorem render_draws_clamped_witness:
  "render NoHit exControls 25 exGraph = Inr (projr (render NoHit exControls 25 exGraph)) \<and>
   cam_z (camera exGraph) = 20000 \<and>
   cam_z (drawnWith (projr (render NoHit exControls 25 exGraph))) = 16000 \<and>
   render NoHit exControls 25 exZoomedGraph = Inr (projr (render NoHit exControls 25 exZoomedGraph)) \<and>
   cam_z (camera exZoomedGraph) = 149 / 2 \<and>
   cam_z (drawnWith (projr (render NoHit exControls 25 exZoomedGraph))) = 75"
  using render_draws_clamped [OF exGraph_render] render_draws_clamped [OF exZoomedGraph_render]
    exGraph_render exZoomedGraph_render
  by (simp add: exGraph_simps exCamera_def exZoomedGraph_def)

text \<open>
  The claim as stated puts the camera in the range after the frame. A camera at height 74.5
  straight above its target is drawn at height 75, and the controls update that ends the frame
  leaves it at \<open>75 * cos (1 / 10 ^ 6)\<close>, below 75, and off its y.
\<close>

theorem render_draws_clamped_counterexample:
  "cam_z (camera exZoomedGraph) = 149 / 2 \<and> cam_y (camera exZoomedGraph) = 0 \<and>
   render NoHit exControls 25 exZoomedGraph = Inr (projr (render NoHit exControls 25 exZoomedGraph)) \<and>
   cam_z (drawnWith (projr (render NoHit exControls 25 exZoomedGraph))) = 75 \<and>
   cam_z (camera (projr (render NoHit exControls 25 exZoomedGraph))) = 75 * cos (1 / 10 ^ 6) \<and>
   cam_z (camera (projr (render NoHit exControls 25 exZoomedGraph))) < 75 \<and>
   cam_y (camera (projr (render NoHit exControls 25 exZoomedGraph))) < 0"
proof -
  let ?g' = "projr (render NoHit exControls 25 exZoomedGraph)"
  from render_InrD(2,3) [OF exZoomedGraph_render]
  have "drawnWith ?g' = \<lparr>cam_x = 0, cam_y = 0, cam_z = 75, cam_aspect = 1\<rparr>"
    "camera ?g' = exControls \<lparr>cam_x = 0, cam_y = 0, cam_z = 75, cam_aspect = 1\<rparr>"
    by (simp_all add: exZoomedGraph_def clampCamera_def)
  with exZoomedGraph_render exControls_lowers [of 75] exControls_tilts [of 75] show ?thesis
    by (simp add: exControls_def exZoomedGraph_def)
qed

subsection \<open>Viewport culling\<close>






subsection \<open>Highlighting\<close>

lemma find_id: "find (\<lambda>e. e = k) xs = (if k \<in> set xs then Some k else None)"
  by (induction xs) auto

lemma addHighLight_Inr:
  assumes "addHighLight ident g = Inr g'"
  shows "g' = g\<lparr>scene := scene g @ highlightObjects (processedData g) ident\<rparr>"
  using assms
  by (auto simp: addHighLight_def highlightObjects_def Let_def find_id split: if_splits)

lemma highlight_same: "highlighted g = Some ident \<Longrightarrow> highlight ident g = Inr g"
  by (simp add: highlight_def)

lemma highlight_other:
  assumes "highlighted g \<noteq> Some ident" and "highlight ident g = Inr g'"
  shows "g' = g\<lparr>scene := scene g @ highlightObjects (processedData g) ident, highlighted := Some ident\<rparr>"
proof -
  from assms obtain g1 where g1: "addHighLight ident g = Inr g1" "g' = g1\<lparr>highlighted := Some ident\<rparr>"
    by (auto simp: highlight_def split: sum.splits)
  with addHighLight_Inr [OF g1(1)] show ?thesis by simp
qed

lemma sceneRemove_other_name:
  "m \<noteq> n \<Longrightarrow>
   filter (\<lambda>ob. obj_name ob = m) (sceneRemove (find (\<lambda>ob. obj_name ob = n) ys) xs)
     = filter (\<lambda>ob. obj_name ob = m) xs"
proof (cases "find (\<lambda>ob. obj_name ob = n) ys")
  case None
  then show ?thesis by simp
next
  case (Some ob)
  assume mn: "m \<noteq> n"
  from Some have n: "obj_name ob = n" by (auto simp: find_Some_iff)
  have "filter (\<lambda>x. obj_name x = m) (remove1 ob xs) = filter (\<lambda>x. obj_name x = m) xs"
    using n mn by (induction xs) auto
  with Some show ?thesis by simp
qed

lemma sceneRemove_keeps:
  "isHighlightName n \<Longrightarrow>
   filter (\<lambda>ob. \<not> isHighlightName (obj_name ob)) (sceneRemove (find (\<lambda>ob. obj_name ob = n) ys) xs)
     = filter (\<lambda>ob. \<not> isHighlightName (obj_name ob)) xs"
proof (cases "find (\<lambda>ob. obj_name ob = n) ys")
  case None
  then show ?thesis by simp
next
  case (Some ob)
  assume hl: "isHighlightName n"
  from Some have n: "obj_name ob = n" by (auto simp: find_Some_iff)
  have "filter (\<lambda>x. \<not> isHighlightName (obj_name x)) (remove1 ob xs)
      = filter (\<lambda>x. \<not> isHighlightName (obj_name x)) xs"
    using n hl by (induction xs) auto
  with Some show ?thesis by simp
qed

lemma length_filter_pos: "x \<in> set xs \<Longrightarrow> P x \<Longrightarrow> 0 < length (filter P xs)"
  by (induction xs) auto

lemma length_filter_remove1:
  "x \<in> set xs \<Longrightarrow> P x \<Longrightarrow> length (filter P (remove1 x xs)) = length (filter P xs) - 1"
proof (induction xs)
  case Nil
  then show ?case by simp
next
  case (Cons a xs)
  show ?case
  proof (cases "x = a")
    case True
    with Cons.prems show ?thesis by simp
  next
    case False
    with Cons.prems have x: "x \<in> set xs" by simp
    have "0 < length (filter P xs)" using x Cons.prems(2) by (rule length_filter_pos)
    with Cons.IH [OF x Cons.prems(2)] False show ?thesis by simp
  qed
qed

lemma sceneRemove_same_name:
  assumes "filter (\<lambda>ob. obj_name ob = n) xs = filter (\<lambda>ob. obj_name ob = n) ys"
  shows "length (filter (\<lambda>ob. obj_name ob = n) (sceneRemove (find (\<lambda>ob. obj_name ob = n) ys) xs))
           = length (filter (\<lambda>ob. obj_name ob = n) ys) - 1"
proof (cases "find (\<lambda>ob. obj_name ob = n) ys")
  case None
  then have "filter (\<lambda>ob. obj_name ob = n) ys = []"
    by (auto simp: find_None_iff filter_empty_conv)
  with None assms show ?thesis by simp
next
  case (Some ob)
  then have "ob \<in> set ys" "obj_name ob = n"
    by (auto simp: find_Some_iff)
  then have "ob \<in> set (filter (\<lambda>ob. obj_name ob = n) ys)" by simp
  moreover from assms have "set (filter (\<lambda>ob. obj_name ob = n) xs) = set (filter (\<lambda>ob. obj_name ob = n) ys)"
    by simp
  ultimately have "ob \<in> set xs" by auto
  with Some \<open>obj_name ob = n\<close> assms show ?thesis
    by (simp add: length_filter_remove1)
qed

lemma unhighlight_scene:
  "scene (unhighlight g) =
     sceneRemove (find (\<lambda>ob. obj_name ob = ''hlArrows'') (scene g))
       (sceneRemove (find (\<lambda>ob. obj_name ob = ''hlText'') (scene g))
          (sceneRemove (find (\<lambda>ob. obj_name ob = ''hlLines'') (scene g))
             (sceneRemove (find (\<lambda>ob. obj_name ob = ''hlNodes'') (scene g)) (scene g))))"
  by (simp add: unhighlight_def getObjectByName_def Let_def)

lemma unhighlight_keeps:
  "filter (\<lambda>ob. \<not> isHighlightName (obj_name ob)) (scene (unhighlight g))
     = filter (\<lambda>ob. \<not> isHighlightName (obj_name ob)) (scene g)"
proof -
  have "isHighlightName ''hlNodes''" "isHighlightName ''hlLines''" "isHighlightName ''hlText''"
    "isHighlightName ''hlArrows''"
    by (simp_all add: isHighlightName_def)
  then show ?thesis
    unfolding unhighlight_scene by (simp add: sceneRemove_keeps)
qed

lemma unhighlight_hlNodes:
  "length (filter (\<lambda>ob. obj_name ob = ''hlNodes'') (scene (unhighlight g)))
     = length (filter (\<lambda>ob. obj_name ob = ''hlNodes'') (scene g)) - 1"
  unfolding unhighlight_scene
  by (simp add: sceneRemove_other_name sceneRemove_same_name)

lemma unhighlight_hlText:
  "length (filter (\<lambda>ob. obj_name ob = ''hlText'') (scene (unhighlight g)))
     = length (filter (\<lambda>ob. obj_name ob = ''hlText'') (scene g)) - 1"
  unfolding unhighlight_scene
  by (simp add: sceneRemove_other_name sceneRemove_same_name)

lemma unhighlight_idle:
  assumes "\<forall>ob \<in> set (scene g). \<not> isHighlightName (obj_name ob)"
  shows "scene (unhighlight g) = scene g"
proof -
  have "find (\<lambda>ob. obj_name ob = n) (scene g) = None" if "isHighlightName n" for n
    using assms that by (auto simp: find_None_iff)
  then show ?thesis
    unfolding unhighlight_scene by (simp add: isHighlightName_def)
qed

lemma exHighlightedA_ok: "highlight ''a'' exGraph = Inr exHighlightedA"
  by (simp add: exHighlightedA_def highlight_def addHighLight_def exGraph_simps Let_def ex_defs)

lemma exHighlightedA_fields:
  "highlighted exHighlightedA = Some ''a''"
  "scene exHighlightedA =
     [\<lparr>obj_name = ''basePoints'', obj_content = Other\<rparr>, \<lparr>obj_name = ''baseLines'', obj_content = Other\<rparr>,
      \<lparr>obj_name = ''hlNodes'', obj_content = PointsAt [''b'', ''c'', ''a'']\<rparr>,
      \<lparr>obj_name = ''hlLine'', obj_content = SegmentsOf [\<lparr>source = ''a'', target = ''b''\<rparr>, \<lparr>source = ''a'', target = ''c''\<rparr>]\<rparr>,
      \<lparr>obj_name = ''hlArrow'', obj_content = ArrowsOf [\<lparr>source = ''a'', target = ''b''\<rparr>, \<lparr>source = ''a'', target = ''c''\<rparr>]\<rparr>,
      \<lparr>obj_name = ''hlText'', obj_content = LabelOf ''a''\<rparr>]"
  by (simp_all add: exHighlightedA_def highlight_def addHighLight_def exGraph_simps Let_def ex_defs)

text \<open>
  C9, amended. \<^verbatim>\<open>highlight\<close> with the id already highlighted changes nothing. With another
  id it appends the four objects of the new set to the scene and records the id; it removes
  nothing. \<^verbatim>\<open>unhighlight\<close> clears the highlighted id, never throws, keeps every object that
  has no highlight name in place, takes one object named \<^verbatim>\<open>hlNodes\<close> and one named
  \<^verbatim>\<open>hlText\<close> out of the scene if there is one, and leaves a scene without highlight objects
  as it is.
\<close>

theorem highlight_bookkeeping:
  "(highlighted g = Some ident \<longrightarrow> highlight ident g = Inr g) \<and>
   (highlighted g \<noteq> Some ident \<and> highlight ident g = Inr g' \<longrightarrow>
      scene g' = scene g @ highlightObjects (processedData g) ident \<and> highlighted g' = Some ident) \<and>
   highlighted (unhighlight g) = None \<and>
   filter (\<lambda>ob. \<not> isHighlightName (obj_name ob)) (scene (unhighlight g))
     = filter (\<lambda>ob. \<not> isHighlightName (obj_name ob)) (scene g) \<and>
   length (filter (\<lambda>ob. obj_name ob = ''hlNodes'') (scene (unhighlight g)))
     = length (filter (\<lambda>ob. obj_name ob = ''hlNodes'') (scene g)) - 1 \<and>
   length (filter (\<lambda>ob. obj_name ob = ''hlText'') (scene (unhighlight g)))
     = length (filter (\<lambda>ob. obj_name ob = ''hlText'') (scene g)) - 1 \<and>
   ((\<forall>ob \<in> set (scene g). \<not> isHighlightName (obj_name ob)) \<longrightarrow> scene (unhighlight g) = scene g)"
proof (intro conjI impI)
  show "highlighted g = Some ident \<Longrightarrow> highlight ident g = Inr g" by (rule highlight_same)
  show "scene g' = scene g @ highlightObjects (processedData g) ident"
    and "highlighted g' = Some ident"
    if "highlighted g \<noteq> Some ident \<and> highlight ident g = Inr g'"
    using highlight_other [of g ident g'] that by simp_all
  show "highlighted (unhighlight g) = None" by (simp add: unhighlight_def Let_def)
  show "scene (unhighlight g) = scene g"
    if "\<forall>ob \<in> set (scene g). \<not> isHighlightName (obj_name ob)"
    using that by (rule unhighlight_idle)
qed (rule unhighlight_keeps unhighlight_hlNodes unhighlight_hlText)+

theorem highlight_bookkeeping_witness:
  "highlighted exGraph = None \<and> highlight ''a'' exGraph = Inr exHighlightedA \<and>
   highlighted exHighlightedA = Some ''a'' \<and>
   scene exHighlightedA = scene exGraph @ highlightObjects (processedData exGraph) ''a'' \<and>
   scene (unhighlight exGraph) = scene exGraph"
proof -
  have idle: "\<forall>ob \<in> set (scene exGraph). \<not> isHighlightName (obj_name ob)"
    by (simp add: ex_defs isHighlightName_def)
  have "highlighted exGraph \<noteq> Some ''a'' \<and> highlight ''a'' exGraph = Inr exHighlightedA"
    by (simp add: exGraph_simps exHighlightedA_ok)
  with highlight_bookkeeping [of exGraph "''a''" exHighlightedA] idle show ?thesis
    by (simp add: exGraph_simps)
qed

text \<open>
  The claim as stated fails for a change of the highlighted node without \<^verbatim>\<open>unhighlight\<close> in
  between: after \<^verbatim>\<open>highlight('a')\<close> and \<^verbatim>\<open>highlight('b')\<close> the scene holds the four objects
  of \<open>a\<close> in front of those of \<open>b\<close>.
\<close>

theorem highlight_bookkeeping_counterexample:
  "highlighted exHighlightedA = Some ''a'' \<and>
   highlight ''b'' exHighlightedA = Inr (projr (highlight ''b'' exHighlightedA)) \<and>
   highlighted (projr (highlight ''b'' exHighlightedA)) = Some ''b'' \<and>
   scene (projr (highlight ''b'' exHighlightedA)) =
     [\<lparr>obj_name = ''basePoints'', obj_content = Other\<rparr>, \<lparr>obj_name = ''baseLines'', obj_content = Other\<rparr>,
      \<lparr>obj_name = ''hlNodes'', obj_content = PointsAt [''b'', ''c'', ''a'']\<rparr>,
      \<lparr>obj_name = ''hlLine'', obj_content = SegmentsOf [\<lparr>source = ''a'', target = ''b''\<rparr>, \<lparr>source = ''a'', target = ''c''\<rparr>]\<rparr>,
      \<lparr>obj_name = ''hlArrow'', obj_content = ArrowsOf [\<lparr>source = ''a'', target = ''b''\<rparr>, \<lparr>source = ''a'', target = ''c''\<rparr>]\<rparr>,
      \<lparr>obj_name = ''hlText'', obj_content = LabelOf ''a''\<rparr>,
      \<lparr>obj_name = ''hlNodes'', obj_content = PointsAt [''a'', ''b'']\<rparr>,
      \<lparr>obj_name = ''hlLine'', obj_content = SegmentsOf [\<lparr>source = ''a'', target = ''b''\<rparr>]\<rparr>,
      \<lparr>obj_name = ''hlArrow'', obj_content = ArrowsOf [\<lparr>source = ''a'', target = ''b''\<rparr>]\<rparr>,
      \<lparr>obj_name = ''hlText'', obj_content = LabelOf ''b''\<rparr>]"
proof -
  define g1 where "g1 = exGraph\<lparr>scene := scene exGraph @ highlightObjects (processedData exGraph) ''a'',
                                highlighted := Some ''a''\<rparr>"
  have "exHighlightedA = g1"
    unfolding g1_def by (rule highlight_other [OF _ exHighlightedA_ok]) (simp add: exGraph_simps)
  moreover have "processedData g1 = processedData exGraph"
    "currentPositionStatus g1 = currentPositionStatus exGraph"
    by (simp_all add: g1_def)
  ultimately have pd: "processedData exHighlightedA = processedData exGraph"
    "currentPositionStatus exHighlightedA = currentPositionStatus exGraph"
    by simp_all
  have "list_all (\<lambda>e. truthy (getProp (nodeInfoMap (processedData exGraph)) e)) [''a'', ''b'']"
    by (simp add: ex_defs)
  then show ?thesis
    by (simp add: highlight_def addHighLight_def Let_def pd exHighlightedA_fields exGraph_simps)
qed

text \<open>
  \<^verbatim>\<open>unhighlight\<close> looks for \<^verbatim>\<open>hlLines\<close> and \<^verbatim>\<open>hlArrows\<close>, while \<^verbatim>\<open>addHighLight\<close>
  names its meshes \<^verbatim>\<open>hlLine\<close> and \<^verbatim>\<open>hlArrow\<close>: the line and arrow meshes of a highlight
  survive it.
\<close>

lemma unhighlight_leaves_line_and_arrow:
  "highlighted (unhighlight exHighlightedA) = None \<and>
   scene (unhighlight exHighlightedA) =
     [\<lparr>obj_name = ''basePoints'', obj_content = Other\<rparr>, \<lparr>obj_name = ''baseLines'', obj_content = Other\<rparr>,
      \<lparr>obj_name = ''hlLine'', obj_content = SegmentsOf [\<lparr>source = ''a'', target = ''b''\<rparr>, \<lparr>source = ''a'', target = ''c''\<rparr>]\<rparr>,
      \<lparr>obj_name = ''hlArrow'', obj_content = ArrowsOf [\<lparr>source = ''a'', target = ''b''\<rparr>, \<lparr>source = ''a'', target = ''c''\<rparr>]\<rparr>]"
  by (simp add: unhighlight_def getObjectByName_def Let_def exHighlightedA_fields)

end
